theory Spec2Isabelle
  imports Main "HOL-Library.Word"
begin

section \<open>The node store\<close>

text \<open>
  The server keeps its nodes as C++ objects that point at each other: a node holds a raw
  pointer to its parent group, a group holds an intrusive list of its children. The model
  is an explicit store from addresses to objects, so that the aliasing between a node and
  the group whose counters it updates is visible.

  One record holds the members of \<open>server_node\<close> and of its subclass \<open>abstract_group\<close>;
  \<open>is_synth\<close> tells which part is meaningful (the group constructor passes \<open>false\<close>).
  The counters are \<open>std::size_t\<close>, taken as 64 bits wide, and wrap around. A null pointer
  is \<open>None\<close>. The members \<open>parent_\<close>, \<open>is_parallel_\<close>, \<open>child_synths_\<close> and
  \<open>child_groups_\<close> lose their trailing underscore, which a HOL name cannot end with;
  \<open>use_count\<close> is the count behind \<open>add_ref\<close> and \<open>release\<close>.
\<close>

type_synonym addr = nat

record node =
  is_synth :: bool
  parent :: "addr option"
  use_count :: int
  child_nodes :: "addr list"
  is_parallel :: bool
  child_synths :: "64 word"
  child_groups :: "64 word"

type_synonym heap = "addr \<Rightarrow> node"

text \<open>
  What stops a call: the dereference of a null pointer (undefined behaviour in C++,
  reported here as a failure) and a failed \<open>assert\<close> (the assertions are taken as
  compiled in). \<open>NotAChild\<close> is the failure the spec gives \<open>remove_child\<close>.
  \<open>NotAttached\<close> is the failure the spec gives the sibling lookups; no function of
  the source raises it.
\<close>

datatype error = NullDereference | AssertionFailure | NotAChild | NotAttached

text \<open>
  Modelled from the spec: \<open>add_ref\<close> and \<open>release\<close> of \<open>server_node\<close> are declared in
  node_types.hpp, which is not among the sources. The spec has attach increment the
  node's reference count and detach release that reference. Handing the storage of a
  node whose count reaches zero back to the pool is the allocator's part and is not
  represented: the object stays in the store with count 0.
\<close>

definition add_ref :: "heap \<Rightarrow> addr \<Rightarrow> heap" where
  "add_ref h n = h(n := (h n)\<lparr>use_count := use_count (h n) + 1\<rparr>)"

definition release :: "heap \<Rightarrow> addr \<Rightarrow> heap" where
  "release h n = h(n := (h n)\<lparr>use_count := use_count (h n) - 1\<rparr>)"

section \<open>Attaching and detaching a node\<close>

text \<open>
  \<open>server_node::clear_parent\<close>: decrement the counter of the parent that matches the
  node's kind, null the parent pointer, release. There is no test of \<open>parent_\<close> before
  it is dereferenced.
\<close>

definition clear_parent :: "heap \<Rightarrow> addr \<Rightarrow> error + heap" where
  "clear_parent h n =
     (case parent (h n) of
        None \<Rightarrow> Inl NullDereference
      | Some p \<Rightarrow>
          let h1 = (if is_synth (h n)
                    then h(p := (h p)\<lparr>child_synths := child_synths (h p) - 1\<rparr>)
                    else h(p := (h p)\<lparr>child_groups := child_groups (h p) - 1\<rparr>));
              h2 = h1(n := (h1 n)\<lparr>parent := None\<rparr>)
          in Inr (release h2 n))"

text \<open>
  \<open>server_node::set_parent\<close>: take a reference, assert that the node has no parent,
  store the pointer, increment the counter of the new parent that matches the node's kind.
\<close>

definition set_parent :: "heap \<Rightarrow> addr \<Rightarrow> addr option \<Rightarrow> error + heap" where
  "set_parent h n target =
     (let h1 = add_ref h n in
      if parent (h1 n) \<noteq> None then Inl AssertionFailure
      else
        let h2 = h1(n := (h1 n)\<lparr>parent := target\<rparr>) in
        case target of
          None \<Rightarrow> Inl NullDereference
        | Some p \<Rightarrow>
            Inr (if is_synth (h2 n)
                 then h2(p := (h2 p)\<lparr>child_synths := child_synths (h2 p) + 1\<rparr>)
                 else h2(p := (h2 p)\<lparr>child_groups := child_groups (h2 p) + 1\<rparr>)))"

text \<open>The number of direct children as \<open>abstract_group::child_count\<close> reports it.\<close>

definition child_count :: "heap \<Rightarrow> addr \<Rightarrow> 64 word" where
  "child_count h g = child_synths (h g) + child_groups (h g)"


section \<open>Siblings\<close>

text \<open>
  Modelled from the spec: \<open>abstract_group::has_child\<close> is declared in group.hpp and
  defined in group.cpp, which is not among the sources; the spec calls it the query of
  child membership.
\<close>

definition has_child :: "heap \<Rightarrow> addr \<Rightarrow> addr \<Rightarrow> bool" where
  "has_child h g n = (n \<in> set (child_nodes (h g)))"

text \<open>
  \<open>s_iterator_to(*node)\<close> is the position of the node in the intrusive list that holds
  it; the model finds that position in the list of the group.
\<close>

fun s_iterator_to :: "addr \<Rightarrow> addr list \<Rightarrow> nat" where
  "s_iterator_to n [] = 0"
| "s_iterator_to n (x # xs) = (if x = n then 0 else Suc (s_iterator_to n xs))"

text \<open>\<open>abstract_group::next_node\<close> and \<open>abstract_group::previous_node\<close>; null is \<open>None\<close>.\<close>

definition group_next_node :: "heap \<Rightarrow> addr \<Rightarrow> addr \<Rightarrow> error + addr option" where
  "group_next_node h g n =
     (if \<not> has_child h g n then Inl AssertionFailure
      else
        let xs = child_nodes (h g); nxt = Suc (s_iterator_to n xs) in
        if nxt = length xs then Inr None else Inr (Some (xs ! nxt)))"

definition group_previous_node :: "heap \<Rightarrow> addr \<Rightarrow> addr \<Rightarrow> error + addr option" where
  "group_previous_node h g n =
     (if \<not> has_child h g n then Inl AssertionFailure
      else
        let xs = child_nodes (h g); it = s_iterator_to n xs in
        if it = 0 then Inr None else Inr (Some (xs ! (it - 1))))"

text \<open>\<open>server_node::previous_node\<close> and \<open>server_node::next_node\<close> go through \<open>parent_\<close>.\<close>

definition previous_node :: "heap \<Rightarrow> addr \<Rightarrow> error + addr option" where
  "previous_node h n =
     (case parent (h n) of
        None \<Rightarrow> Inl NullDereference
      | Some p \<Rightarrow> group_previous_node h p n)"

definition next_node :: "heap \<Rightarrow> addr \<Rightarrow> error + addr option" where
  "next_node h n =
     (case parent (h n) of
        None \<Rightarrow> Inl NullDereference
      | Some p \<Rightarrow> group_next_node h p n)"

section \<open>Bulk removal\<close>

text \<open>
  \<open>child_nodes.clear_and_dispose(clear_parent)\<close>: every element is unlinked and handed to
  the disposer, front to back; the list is empty afterwards. The loop is
  \<open>clear_and_dispose\<close>, the reset of the list is in \<open>free_children\<close>, followed by the two
  assertions of the source.
\<close>

fun clear_and_dispose :: "heap \<Rightarrow> addr list \<Rightarrow> error + heap" where
  "clear_and_dispose h [] = Inr h"
| "clear_and_dispose h (c # cs) =
     (case clear_parent h c of
        Inl e \<Rightarrow> Inl e
      | Inr h' \<Rightarrow> clear_and_dispose h' cs)"

definition free_children :: "heap \<Rightarrow> addr \<Rightarrow> error + heap" where
  "free_children h g =
     (case clear_and_dispose h (child_nodes (h g)) of
        Inl e \<Rightarrow> Inl e
      | Inr h1 \<Rightarrow>
          let h2 = h1(g := (h1 g)\<lparr>child_nodes := []\<rparr>) in
          if child_synths (h2 g) \<noteq> 0 then Inl AssertionFailure
          else if child_groups (h2 g) \<noteq> 0 then Inl AssertionFailure
          else Inr h2)"

text \<open>
  \<open>child_nodes.remove_and_dispose_if(is_synth, clear_parent)\<close>: the elements that
  satisfy the predicate are unlinked and handed to the disposer, the others stay in
  their order. The function returns the store and the elements that stay.
\<close>

fun remove_and_dispose_if :: "heap \<Rightarrow> addr list \<Rightarrow> error + heap \<times> addr list" where
  "remove_and_dispose_if h [] = Inr (h, [])"
| "remove_and_dispose_if h (c # cs) =
     (if is_synth (h c)
      then (case clear_parent h c of
              Inl e \<Rightarrow> Inl e
            | Inr h' \<Rightarrow> remove_and_dispose_if h' cs)
      else (case remove_and_dispose_if h cs of
              Inl e \<Rightarrow> Inl e
            | Inr (h', kept) \<Rightarrow> Inr (h', c # kept)))"

text \<open>
  The loop of \<open>free_synths_deep\<close> over the groups that are left, with the recursive
  call as a parameter. \<open>None\<close> is a call that does not return.
\<close>

fun for_each_child ::
  "(heap \<Rightarrow> addr \<Rightarrow> (error + heap) option) \<Rightarrow> heap \<Rightarrow> addr list \<Rightarrow> (error + heap) option" where
  "for_each_child f h [] = Some (Inr h)"
| "for_each_child f h (c # cs) =
     (case f h c of
        None \<Rightarrow> None
      | Some (Inl e) \<Rightarrow> Some (Inl e)
      | Some (Inr h') \<Rightarrow> for_each_child f h' cs)"

text \<open>
  \<open>abstract_group::free_synths_deep\<close>. The recursion follows the pointers of the store,
  which may form a cycle, so it is bounded by fuel: the first argument is the number of
  nested calls allowed. The loop runs over the list as it stands after the synths have
  been removed; a nested call that changed that list would be a call on an ancestor,
  which never returns.
\<close>

primrec free_synths_deep :: "nat \<Rightarrow> heap \<Rightarrow> addr \<Rightarrow> (error + heap) option" where
  "free_synths_deep 0 h g = None"
| "free_synths_deep (Suc k) h g =
     (case remove_and_dispose_if h (child_nodes (h g)) of
        Inl e \<Rightarrow> Some (Inl e)
      | Inr (h1, kept) \<Rightarrow>
          let h2 = h1(g := (h1 g)\<lparr>child_nodes := kept\<rparr>) in
          (case for_each_child (free_synths_deep k) h2 (child_nodes (h2 g)) of
             None \<Rightarrow> None
           | Some (Inl e) \<Rightarrow> Some (Inl e)
           | Some (Inr h3) \<Rightarrow>
               if child_synths (h3 g) \<noteq> 0 then Some (Inl AssertionFailure)
               else Some (Inr h3)))"

section \<open>Queries on the subtree\<close>

text \<open>
  The loop of \<open>group::tail_nodes\<close> over the children, last to first, with the virtual
  call on a child group as a parameter. The result is a C++ \<open>int\<close>; the sequential
  count does no arithmetic on it.
\<close>

fun tail_scan :: "(addr \<Rightarrow> int option) \<Rightarrow> heap \<Rightarrow> addr list \<Rightarrow> int option" where
  "tail_scan sub h [] = Some 0"
| "tail_scan sub h (c # cs) =
     (if is_synth (h c) then Some 1
      else if child_nodes (h c) \<noteq> [] then sub c
      else tail_scan sub h cs)"

text \<open>
  Modelled from the spec: \<open>parallel_group::tail_nodes\<close> is declared in group.hpp and
  defined in group.cpp, which is not among the sources. The spec: for a parallel group
  the tail count is the sum of the tail counts over all direct children; a synth counts
  1. The sum is taken over unbounded integers.
\<close>

fun sum_tails :: "int option list \<Rightarrow> int option" where
  "sum_tails [] = Some 0"
| "sum_tails (x # xs) =
     (case x of
        None \<Rightarrow> None
      | Some a \<Rightarrow> (case sum_tails xs of None \<Rightarrow> None | Some b \<Rightarrow> Some (a + b)))"

definition parallel_tail_nodes :: "(addr \<Rightarrow> int option) \<Rightarrow> heap \<Rightarrow> addr \<Rightarrow> int option" where
  "parallel_tail_nodes sub h g =
     sum_tails (map (\<lambda>c. if is_synth (h c) then Some 1 else sub c) (child_nodes (h g)))"

text \<open>
  The virtual \<open>tail_nodes\<close>: \<open>parallel_group\<close> is the class built with \<open>is_parallel\<close> true,
  \<open>group\<close> the one built with false. Bounded by fuel as above.
\<close>

primrec tail_nodes :: "nat \<Rightarrow> heap \<Rightarrow> addr \<Rightarrow> int option" where
  "tail_nodes 0 h g = None"
| "tail_nodes (Suc k) h g =
     (if is_parallel (h g) then parallel_tail_nodes (tail_nodes k h) h g
      else if child_nodes (h g) = [] then Some 0
      else tail_scan (tail_nodes k h) h (rev (child_nodes (h g))))"

text \<open>\<open>abstract_group::has_synth_children\<close>, its loop first.\<close>

fun synth_scan :: "(addr \<Rightarrow> bool option) \<Rightarrow> heap \<Rightarrow> addr list \<Rightarrow> bool option" where
  "synth_scan hs h [] = Some False"
| "synth_scan hs h (c # cs) =
     (if is_synth (h c) then Some True
      else (case hs c of
              None \<Rightarrow> None
            | Some True \<Rightarrow> Some True
            | Some False \<Rightarrow> synth_scan hs h cs))"

primrec has_synth_children :: "nat \<Rightarrow> heap \<Rightarrow> addr \<Rightarrow> bool option" where
  "has_synth_children 0 h g = None"
| "has_synth_children (Suc k) h g =
     synth_scan (has_synth_children k h) h (child_nodes (h g))"

text \<open>
  The tail count of a sequential group in the words of the spec: an empty group yields
  0; otherwise the children are scanned from the last one, empty nested groups are
  skipped, a synth found first yields 1, a non-empty group found first yields its own
  tail count, and a scan that finds neither yields 0.
\<close>

definition tail_count_by_spec :: "(addr \<Rightarrow> int option) \<Rightarrow> heap \<Rightarrow> addr \<Rightarrow> int option" where
  "tail_count_by_spec child_tail h g =
     (if child_nodes (h g) = [] then Some 0
      else
        (case List.find (\<lambda>c. is_synth (h c) \<or> child_nodes (h c) \<noteq> [])
                (rev (child_nodes (h g))) of
           None \<Rightarrow> Some 0
         | Some c \<Rightarrow> if is_synth (h c) then Some 1 else child_tail c))"

text \<open>The groups below \<open>g\<close> nest less than \<open>k\<close> deep: enough fuel for the recursions.\<close>

primrec nests_within :: "nat \<Rightarrow> heap \<Rightarrow> addr \<Rightarrow> bool" where
  "nests_within 0 h g = False"
| "nests_within (Suc k) h g =
     (\<forall>c \<in> set (child_nodes (h g)). is_synth (h c) \<or> nests_within k h c)"


section \<open>Consistency of a group\<close>

text \<open>
  The state the code keeps a group in: every element of the child list points back at
  the group, no element is linked twice, and each counter is the number of children of
  its kind. The comparison is on \<open>std::size_t\<close>, as \<open>child_count() == child_nodes.size()\<close>
  would be.
\<close>

definition group_ok :: "heap \<Rightarrow> addr \<Rightarrow> bool" where
  "group_ok h g =
     ((\<forall>c \<in> set (child_nodes (h g)). parent (h c) = Some g) \<and>
      distinct (child_nodes (h g)) \<and>
      child_synths (h g) = of_nat (length (filter (\<lambda>c. is_synth (h c)) (child_nodes (h g)))) \<and>
      child_groups (h g) = of_nat (length (filter (\<lambda>c. \<not> is_synth (h c)) (child_nodes (h g)))))"

text \<open>
  Modelled from the spec: \<open>abstract_group::add_child\<close> and \<open>abstract_group::remove_child\<close>
  are declared in group.hpp and defined in group.cpp, which is not among the sources.
  The spec: add_child inserts the node at a position of the collection and calls
  attach; remove_child fails with NotAChild if the node is not a direct child and
  detaches it otherwise, which ends its membership in the collection. The position is
  an index, cut off at the end of the list.
\<close>

definition add_child :: "heap \<Rightarrow> addr \<Rightarrow> addr \<Rightarrow> nat \<Rightarrow> error + heap" where
  "add_child h g n i =
     (let xs = child_nodes (h g);
          h1 = h(g := (h g)\<lparr>child_nodes := take i xs @ n # drop i xs\<rparr>)
      in set_parent h1 n (Some g))"

definition remove_child :: "heap \<Rightarrow> addr \<Rightarrow> addr \<Rightarrow> error + heap" where
  "remove_child h g n =
     (if \<not> has_child h g n then Inl NotAChild
      else
        let h1 = h(g := (h g)\<lparr>child_nodes := remove1 n (child_nodes (h g))\<rparr>)
        in clear_parent h1 n)"

text \<open>A sequence of attach and detach operations on the children of one group.\<close>

datatype child_op = Attach addr nat | Detach addr

fun apply_op :: "heap \<Rightarrow> addr \<Rightarrow> child_op \<Rightarrow> error + heap" where
  "apply_op h g (Attach n i) = add_child h g n i"
| "apply_op h g (Detach n) = remove_child h g n"

fun run_ops :: "heap \<Rightarrow> addr \<Rightarrow> child_op list \<Rightarrow> error + heap" where
  "run_ops h g [] = Inr h"
| "run_ops h g (x # xs) =
     (case apply_op h g x of
        Inl e \<Rightarrow> Inl e
      | Inr h' \<Rightarrow> run_ops h' g xs)"

section \<open>Well-formed subtrees\<close>

text \<open>
  The part of the store below a node, as a finite tree of addresses. \<open>shaped h t\<close>: the
  store holds the tree \<open>t\<close>, every group of it consistent. With \<open>distinct (addrs t)\<close> no
  object occurs twice, as an object linked through its one list hook cannot.
\<close>

datatype tree = Tree (root: addr) (subtrees: "tree list")

fun addrs :: "tree \<Rightarrow> addr list" where
  "addrs (Tree a ts) = a # concat (map addrs ts)"

fun height :: "tree \<Rightarrow> nat" where
  "height (Tree a ts) = Suc (foldr max (map height ts) 0)"

fun shaped :: "heap \<Rightarrow> tree \<Rightarrow> bool" where
  "shaped h (Tree a ts) =
     (if is_synth (h a) then ts = []
      else child_nodes (h a) = map root ts \<and> group_ok h a \<and> (\<forall>t \<in> set ts. shaped h t))"

text \<open>
  What \<open>free_synths_deep\<close> leaves of an object of the subtree: a synth is detached and
  released; a group keeps its child groups in their order and nothing else, its synth
  counter is zero, and its group counter, its own parent and its reference count are as
  before. \<open>pruned_on as h h'\<close>: the store \<open>h'\<close> is \<open>h\<close> with the objects at \<open>as\<close> so
  changed and every other object as it was.
\<close>

definition pruned_at :: "heap \<Rightarrow> heap \<Rightarrow> addr \<Rightarrow> bool" where
  "pruned_at h h' a =
     (is_synth (h' a) = is_synth (h a) \<and> is_parallel (h' a) = is_parallel (h a) \<and>
      (if is_synth (h a)
       then parent (h' a) = None \<and> use_count (h' a) = use_count (h a) - 1
       else child_nodes (h' a) = filter (\<lambda>c. \<not> is_synth (h c)) (child_nodes (h a)) \<and>
            child_synths (h' a) = 0 \<and> child_groups (h' a) = child_groups (h a) \<and>
            parent (h' a) = parent (h a) \<and> use_count (h' a) = use_count (h a)))"

definition pruned_on :: "addr list \<Rightarrow> heap \<Rightarrow> heap \<Rightarrow> bool" where
  "pruned_on as h h' =
     ((\<forall>a. a \<notin> set as \<longrightarrow> h' a = h a) \<and> (\<forall>a \<in> set as. pruned_at h h' a))"

section \<open>Example stores\<close>

text \<open>The objects the constructors build: no parent, no children, counters at 0.\<close>

definition new_group :: "bool \<Rightarrow> node" where
  "new_group par =
     \<lparr>is_synth = False, parent = None, use_count = 0, child_nodes = [],
      is_parallel = par, child_synths = 0, child_groups = 0\<rparr>"

definition new_synth :: node where
  "new_synth =
     \<lparr>is_synth = True, parent = None, use_count = 0, child_nodes = [],
      is_parallel = False, child_synths = 0, child_groups = 0\<rparr>"

definition fresh_store :: heap where
  "fresh_store = (\<lambda>a. if a = 1 \<or> a = 3 then new_synth else new_group (a = 5))"

text \<open>
  A sequential group 0 holding the synth 1 and the group 2; group 2 holds the synth 3
  and the empty group 4.
\<close>

definition nested_store :: heap where
  "nested_store =
     fresh_store
       (0 := (new_group False)\<lparr>child_nodes := [1, 2], child_synths := 1, child_groups := 1\<rparr>,
        1 := new_synth\<lparr>parent := Some 0, use_count := 1\<rparr>,
        2 := (new_group False)\<lparr>parent := Some 0, use_count := 1, child_nodes := [3, 4],
                                 child_synths := 1, child_groups := 1\<rparr>,
        3 := new_synth\<lparr>parent := Some 2, use_count := 1\<rparr>,
        4 := (new_group False)\<lparr>parent := Some 2, use_count := 1\<rparr>)"

definition nested_tree :: tree where
  "nested_tree = Tree 0 [Tree 1 [], Tree 2 [Tree 3 [], Tree 4 []]]"

text \<open>
  A sequential group 0 holding the synth 1 and then the group 2, whose only child is
  the empty group 4.
\<close>

definition hollow_store :: heap where
  "hollow_store =
     fresh_store
       (0 := (new_group False)\<lparr>child_nodes := [1, 2], child_synths := 1, child_groups := 1\<rparr>,
        1 := new_synth\<lparr>parent := Some 0, use_count := 1\<rparr>,
        2 := (new_group False)\<lparr>parent := Some 0, use_count := 1, child_nodes := [4],
                                 child_groups := 1\<rparr>,
        4 := (new_group False)\<lparr>parent := Some 2, use_count := 1\<rparr>)"

definition hollow_tree :: tree where
  "hollow_tree = Tree 0 [Tree 1 [], Tree 2 [Tree 4 []]]"

text \<open>
  A parallel group 5 holding the synth 1, the sequential group 0 with the synth 3 in
  it, and the empty group 4.
\<close>

definition parallel_store :: heap where
  "parallel_store =
     fresh_store
       (5 := (new_group True)\<lparr>child_nodes := [1, 0, 4], child_synths := 1, child_groups := 2\<rparr>,
        1 := new_synth\<lparr>parent := Some 5, use_count := 1\<rparr>,
        0 := (new_group False)\<lparr>parent := Some 5, use_count := 1, child_nodes := [3],
                                 child_synths := 1\<rparr>,
        3 := new_synth\<lparr>parent := Some 0, use_count := 1\<rparr>,
        4 := (new_group False)\<lparr>parent := Some 5, use_count := 1\<rparr>)"

text \<open>A group 0 whose child is the group 2: 2 is a descendant of 0, and 0 has no parent.\<close>

definition chain_store :: heap where
  "chain_store =
     fresh_store
       (0 := (new_group False)\<lparr>child_nodes := [2], child_groups := 1\<rparr>,
        2 := (new_group False)\<lparr>parent := Some 0, use_count := 1\<rparr>)"


text \<open>
  The fresh store with every object held by one handle of the control layer. On it:
  attach the synth 1, the group 2 and the synth 3 to the group 0, then detach the
  group 2.
\<close>

definition held_store :: heap where
  "held_store = (\<lambda>a. (fresh_store a)\<lparr>use_count := 1\<rparr>)"

definition attach_detach_ops :: "child_op list" where
  "attach_detach_ops = [Attach 1 0, Attach 2 0, Attach 3 1, Detach 2]"

section \<open>Attach and detach: the single steps\<close>

lemmas store_defs = fresh_store_def new_group_def new_synth_def

lemma set_parent_Some:
  "set_parent h n (Some g) =
     (if parent (h n) \<noteq> None then Inl AssertionFailure
      else Inr (let h2 = h(n := (h n)\<lparr>use_count := use_count (h n) + 1, parent := Some g\<rparr>) in
                if is_synth (h n)
                then h2(g := (h2 g)\<lparr>child_synths := child_synths (h2 g) + 1\<rparr>)
                else h2(g := (h2 g)\<lparr>child_groups := child_groups (h2 g) + 1\<rparr>)))"
  by (simp add: set_parent_def add_ref_def Let_def)




text \<open>
  C3, as the claim states it, fails: the synth 1 of the fresh store has no parent, and
  \<open>clear_parent\<close> on it does not return the store unchanged. It dereferences the null
  parent pointer.
\<close>

theorem clear_parent_detached_counterexample:
  "parent (fresh_store 1) = None \<and>
   clear_parent fresh_store 1 = Inl NullDereference \<and>
   clear_parent fresh_store 1 \<noteq> Inr fresh_store"
  by (simp add: clear_parent_def store_defs)

text \<open>
  C3, amended: \<open>clear_parent\<close> has no guard. On a node without a parent it fails on the
  null pointer. On a node with parent \<open>p\<close> it returns: the parent pointer of the node is
  null, its reference count is one less, the counter of \<open>p\<close> for the node's kind is one
  less, and the counters of every other group are untouched.
\<close>

theorem clear_parent_outcome:
  "(parent (h n) = None \<longrightarrow> clear_parent h n = Inl NullDereference) \<and>
   (parent (h n) = Some p \<longrightarrow>
      (\<exists>h'. clear_parent h n = Inr h' \<and>
         parent (h' n) = None \<and> use_count (h' n) = use_count (h n) - 1 \<and>
         (if is_synth (h n)
          then child_synths (h' p) = child_synths (h p) - 1 \<and>
               child_groups (h' p) = child_groups (h p)
          else child_groups (h' p) = child_groups (h p) - 1 \<and>
               child_synths (h' p) = child_synths (h p)) \<and>
         (\<forall>g. g \<noteq> p \<longrightarrow> child_synths (h' g) = child_synths (h g) \<and>
                         child_groups (h' g) = child_groups (h g))))"
  by (simp add: clear_parent_def release_def Let_def)

theorem clear_parent_outcome_witness:
  "parent (fresh_store 3) = None \<and> clear_parent fresh_store 3 = Inl NullDereference \<and>
   parent (nested_store 3) = Some 2 \<and>
   (\<exists>h'. clear_parent nested_store 3 = Inr h' \<and>
       parent (h' 3) = None \<and> use_count (h' 3) = 0 \<and>
       child_synths (h' 2) = 0 \<and> child_groups (h' 2) = 1 \<and>
       child_synths (h' 0) = 1 \<and> child_groups (h' 0) = 1)"
proof -
  have a: "parent (fresh_store 3) = None" by (simp add: store_defs)
  have b: "parent (nested_store 3) = Some 2" by (simp add: nested_store_def store_defs)
  have c: "is_synth (nested_store 3)" by (simp add: nested_store_def store_defs)
  from clear_parent_outcome [of fresh_store 3] a
  have 1: "clear_parent fresh_store 3 = Inl NullDereference" by simp
  from clear_parent_outcome [of nested_store 3 2] b c
  obtain h' where h': "clear_parent nested_store 3 = Inr h'" "parent (h' 3) = None"
    "use_count (h' 3) = use_count (nested_store 3) - 1"
    "child_synths (h' 2) = child_synths (nested_store 2) - 1"
    "child_groups (h' 2) = child_groups (nested_store 2)"
    "child_synths (h' 0) = child_synths (nested_store 0)"
    "child_groups (h' 0) = child_groups (nested_store 0)"
    by auto
  from h' have "use_count (h' 3) = 0" "child_synths (h' 2) = 0" "child_groups (h' 2) = 1"
       "child_synths (h' 0) = 1" "child_groups (h' 0) = 1"
    by (simp_all add: nested_store_def store_defs)
  with a b 1 h'(1,2) show ?thesis by simp
qed

text \<open>
  C4, as the claim states it, fails: in the chain store the group 2 is a child of the
  group 0, which has no parent. \<open>set_parent\<close> of 0 to its descendant 2 returns, and
  leaves 0 and 2 as each other's parent.
\<close>

theorem set_parent_cycle_counterexample:
  "parent (chain_store 0) = None \<and> has_child chain_store 0 2 \<and>
   parent (chain_store 2) = Some 0 \<and>
   \<not> isl (set_parent chain_store 0 (Some 2)) \<and>
   parent (projr (set_parent chain_store 0 (Some 2)) 0) = Some 2 \<and>
   parent (projr (set_parent chain_store 0 (Some 2)) 2) = Some 0"
  by (simp add: set_parent_Some has_child_def chain_store_def store_defs)

text \<open>
  C4, amended: \<open>set_parent\<close> fails, on its assertion, exactly when the node already has
  a parent; where the target stands in the tree is not looked at. On a node without a
  parent it returns for every target group \<open>p\<close>: the reference count of the node is
  one more, its parent pointer is \<open>p\<close>, and the counter of \<open>p\<close> for the node's kind is
  one more, the other counter unchanged.
\<close>

theorem set_parent_outcome:
  "(parent (h n) \<noteq> None \<longrightarrow> set_parent h n (Some p) = Inl AssertionFailure) \<and>
   (parent (h n) = None \<longrightarrow>
      (\<exists>h'. set_parent h n (Some p) = Inr h' \<and>
         use_count (h' n) = use_count (h n) + 1 \<and> parent (h' n) = Some p \<and>
         (if is_synth (h n)
          then child_synths (h' p) = child_synths (h p) + 1 \<and>
               child_groups (h' p) = child_groups (h p)
          else child_groups (h' p) = child_groups (h p) + 1 \<and>
               child_synths (h' p) = child_synths (h p))))"
  by (simp add: set_parent_Some Let_def)

theorem set_parent_outcome_witness:
  "parent (nested_store 3) \<noteq> None \<and>
   set_parent nested_store 3 (Some 4) = Inl AssertionFailure \<and>
   parent (chain_store 0) = None \<and>
   (\<exists>h'. set_parent chain_store 0 (Some 2) = Inr h' \<and>
       use_count (h' 0) = 1 \<and> parent (h' 0) = Some 2 \<and>
       child_groups (h' 2) = 1 \<and> child_synths (h' 2) = 0)"
proof -
  have a: "parent (nested_store 3) \<noteq> None" by (simp add: nested_store_def store_defs)
  have b: "parent (chain_store 0) = None" "\<not> is_synth (chain_store 0)"
    "use_count (chain_store 0) = 0" "child_groups (chain_store 2) = 0"
    "child_synths (chain_store 2) = 0"
    by (simp_all add: chain_store_def store_defs)
  from set_parent_outcome [of nested_store 3 4] a
  have 1: "set_parent nested_store 3 (Some 4) = Inl AssertionFailure" by simp
  from set_parent_outcome [of chain_store 0 2] b
  have "\<exists>h'. set_parent chain_store 0 (Some 2) = Inr h' \<and>
       use_count (h' 0) = 1 \<and> parent (h' 0) = Some 2 \<and>
       child_groups (h' 2) = 1 \<and> child_synths (h' 2) = 0"
    by simp
  with a b(1) 1 show ?thesis by simp
qed


section \<open>Sibling lookup\<close>

lemma s_iterator_to_append:
  "n \<notin> set xs \<Longrightarrow> s_iterator_to n (xs @ n # ys) = length xs"
  by (induction xs) auto

text \<open>
  C6, as the claim states it, fails: the group 0 of the nested store has no parent.
  \<open>next_node\<close> and \<open>previous_node\<close> on it make no test and report no NotAttached
  failure; they dereference the null parent pointer, which is undefined behaviour.
\<close>

theorem sibling_lookup_detached_counterexample:
  "parent (nested_store 0) = None \<and>
   next_node nested_store 0 = Inl NullDereference \<and>
   next_node nested_store 0 \<noteq> Inl NotAttached \<and>
   previous_node nested_store 0 = Inl NullDereference \<and>
   previous_node nested_store 0 \<noteq> Inl NotAttached"
  by (simp add: next_node_def previous_node_def nested_store_def store_defs)

text \<open>
  C6, amended: \<open>next_node\<close> and \<open>previous_node\<close> do not test the parent pointer and
  report no error: on a node without a parent they dereference the null pointer,
  which is undefined behaviour. For a node linked in the child list of its parent,
  \<open>next_node\<close> is null when the node is the last element and the element after it
  otherwise; \<open>previous_node\<close> is null when the node is the first element and the
  element before it otherwise.
\<close>

theorem sibling_lookup:
  "(parent (h n) = None \<longrightarrow>
      next_node h n = Inl NullDereference \<and> previous_node h n = Inl NullDereference) \<and>
   (parent (h n) = Some p \<and> child_nodes (h p) = xs @ n # ys \<and> n \<notin> set xs \<longrightarrow>
      next_node h n = Inr (case ys of [] \<Rightarrow> None | y # _ \<Rightarrow> Some y) \<and>
      previous_node h n = Inr (if xs = [] then None else Some (last xs)))"
proof (intro conjI impI)
  assume "parent (h n) = None"
  then show "next_node h n = Inl NullDereference" "previous_node h n = Inl NullDereference"
    by (simp_all add: next_node_def previous_node_def)
next
  assume a: "parent (h n) = Some p \<and> child_nodes (h p) = xs @ n # ys \<and> n \<notin> set xs"
  then have it: "s_iterator_to n (child_nodes (h p)) = length xs"
    by (simp add: s_iterator_to_append)
  have c: "has_child h p n" using a by (simp add: has_child_def)
  show "next_node h n = Inr (case ys of [] \<Rightarrow> None | y # _ \<Rightarrow> Some y)"
    using a it c
    by (cases ys) (simp_all add: next_node_def group_next_node_def Let_def nth_append)
  show "previous_node h n = Inr (if xs = [] then None else Some (last xs))"
    using a it c
    by (simp add: previous_node_def group_previous_node_def Let_def nth_append last_conv_nth)
qed

theorem sibling_lookup_witness:
  "parent (nested_store 0) = None \<and>
   next_node nested_store 0 = Inl NullDereference \<and>
   previous_node nested_store 0 = Inl NullDereference \<and>
   parent (nested_store 1) = Some 0 \<and> child_nodes (nested_store 0) = [] @ 1 # [2] \<and>
   1 \<notin> set ([] :: addr list) \<and>
   next_node nested_store 1 = Inr (Some 2) \<and> previous_node nested_store 1 = Inr None \<and>
   parent (nested_store 2) = Some 0 \<and> child_nodes (nested_store 0) = [1] @ 2 # [] \<and>
   2 \<notin> set [1 :: addr] \<and>
   next_node nested_store 2 = Inr None \<and> previous_node nested_store 2 = Inr (Some 1)"
proof -
  have a: "parent (nested_store 0) = None" "parent (nested_store 1) = Some 0"
    "parent (nested_store 2) = Some 0" "child_nodes (nested_store 0) = [1, 2]"
    by (simp_all add: nested_store_def store_defs)
  show ?thesis
    using a sibling_lookup [of nested_store 0]
      sibling_lookup [of nested_store 1 0 "[]" "[2]"]
      sibling_lookup [of nested_store 2 0 "[1]" "[]"]
    by simp
qed

section \<open>Tail counts\<close>

lemma tail_scan_find:
  "tail_scan sub h cs =
     (case List.find (\<lambda>c. is_synth (h c) \<or> child_nodes (h c) \<noteq> []) cs of
        None \<Rightarrow> Some 0
      | Some c \<Rightarrow> if is_synth (h c) then Some 1 else sub c)"
  by (induction cs) auto

lemma sum_tails_total:
  "\<forall>x \<in> set xs. x \<noteq> None \<Longrightarrow> \<exists>v. sum_tails xs = Some v"
  by (induction xs) auto

lemma tail_scan_total:
  "\<forall>c \<in> set cs. \<not> is_synth (h c) \<longrightarrow> sub c \<noteq> None \<Longrightarrow> \<exists>v. tail_scan sub h cs = Some v"
  by (induction cs) auto

text \<open>With fuel beyond the nesting depth \<open>tail_nodes\<close> returns.\<close>

lemma tail_nodes_total:
  "nests_within k h g \<Longrightarrow> \<exists>v. tail_nodes k h g = Some v"
proof (induction k arbitrary: g)
  case 0
  then show ?case by simp
next
  case (Suc k)
  then have sub: "\<forall>c \<in> set (child_nodes (h g)). \<not> is_synth (h c) \<longrightarrow> tail_nodes k h c \<noteq> None"
    by fastforce
  show ?case
  proof (cases "is_parallel (h g)")
    case True
    have "\<exists>v. sum_tails (map (\<lambda>c. if is_synth (h c) then Some 1 else tail_nodes k h c)
                  (child_nodes (h g))) = Some v"
      using sub by (intro sum_tails_total) auto
    with True show ?thesis by (simp add: parallel_tail_nodes_def)
  next
    case False
    have "\<exists>v. tail_scan (tail_nodes k h) h (rev (child_nodes (h g))) = Some v"
      using sub by (intro tail_scan_total) auto
    with False show ?thesis by auto
  qed
qed

text \<open>More fuel does not change a count that was returned.\<close>

lemma tail_scan_mono:
  "(\<And>c v. sub c = Some v \<Longrightarrow> sub' c = Some v) \<Longrightarrow>
   tail_scan sub h cs = Some v \<Longrightarrow> tail_scan sub' h cs = Some v"
  by (induction cs) (auto split: if_splits)

lemma sum_tails_mono:
  "(\<And>c v. c \<in> set cs \<Longrightarrow> F c = Some v \<Longrightarrow> F' c = Some v) \<Longrightarrow>
   sum_tails (map F cs) = Some v \<Longrightarrow> sum_tails (map F' cs) = Some v"
  by (induction cs arbitrary: v) (auto split: option.splits)

lemma tail_nodes_Suc:
  "tail_nodes k h g = Some v \<Longrightarrow> tail_nodes (Suc k) h g = Some v"
proof (induction k arbitrary: g v)
  case 0
  then show ?case by simp
next
  case (Suc k)
  show ?case
  proof (cases "is_parallel (h g)")
    case True
    with Suc.prems have "sum_tails (map (\<lambda>c. if is_synth (h c) then Some 1 else tail_nodes k h c)
        (child_nodes (h g))) = Some v"
      by (simp add: parallel_tail_nodes_def)
    then have "sum_tails (map (\<lambda>c. if is_synth (h c) then Some 1 else tail_nodes (Suc k) h c)
        (child_nodes (h g))) = Some v"
      by (rule sum_tails_mono [rotated]) (auto split: if_splits dest: Suc.IH)
    with True show ?thesis by (simp add: parallel_tail_nodes_def)
  next
    case False
    show ?thesis
    proof (cases "child_nodes (h g) = []")
      case True
      with False Suc.prems show ?thesis by simp
    next
      case ne: False
      with False Suc.prems have "tail_scan (tail_nodes k h) h (rev (child_nodes (h g))) = Some v"
        by simp
      then have "tail_scan (tail_nodes (Suc k) h) h (rev (child_nodes (h g))) = Some v"
        by (rule tail_scan_mono [rotated]) (rule Suc.IH)
      with False ne show ?thesis by simp
    qed
  qed
qed

lemma tail_nodes_more_fuel:
  "tail_nodes k h g = Some v \<Longrightarrow> tail_nodes (k + j) h g = Some v"
  by (induction j) (auto intro: tail_nodes_Suc simp del: tail_nodes.simps)

lemma tail_scan_skip:
  "\<forall>y \<in> set zs. \<not> is_synth (h y) \<and> child_nodes (h y) = [] \<Longrightarrow>
   tail_scan sub h (zs @ rest) = tail_scan sub h rest"
  by (induction zs) auto

lemma tail_scan_last:
  assumes "\<forall>y \<in> set ys. \<not> is_synth (h y) \<and> child_nodes (h y) = []"
    and "is_synth (h c) \<or> child_nodes (h c) \<noteq> []"
  shows "tail_scan sub h (rev (xs @ c # ys)) = (if is_synth (h c) then Some 1 else sub c)"
proof -
  have "tail_scan sub h (rev ys @ c # rev xs) = tail_scan sub h (c # rev xs)"
    using assms(1) by (intro tail_scan_skip) simp
  with assms(2) show ?thesis by auto
qed

text \<open>
  C2: for a sequential group \<open>tail_nodes\<close> is the count the spec's algorithm gives, the
  count of a child group being that child's own \<open>tail_nodes\<close>, and it returns whenever
  the fuel exceeds the nesting depth below the group. Spelled out: if \<open>c\<close> is the last
  child that is a synth or a non-empty group, every child after it being an empty
  group, the count is 1 for a synth \<open>c\<close> and the count of \<open>c\<close> for a group \<open>c\<close>; if
  all children are empty groups, or there is none, the count is 0.
\<close>

theorem group_tail_nodes_by_spec:
  assumes "\<not> is_parallel (h g)"
  shows "tail_nodes (Suc k) h g = tail_count_by_spec (tail_nodes k h) h g \<and>
         (nests_within (Suc k) h g \<longrightarrow> (\<exists>v. tail_nodes (Suc k) h g = Some v)) \<and>
         (child_nodes (h g) = xs @ c # ys \<and>
          (\<forall>y \<in> set ys. \<not> is_synth (h y) \<and> child_nodes (h y) = []) \<and>
          (is_synth (h c) \<or> child_nodes (h c) \<noteq> []) \<longrightarrow>
            tail_nodes (Suc k) h g = (if is_synth (h c) then Some 1 else tail_nodes k h c)) \<and>
         ((\<forall>y \<in> set (child_nodes (h g)). \<not> is_synth (h y) \<and> child_nodes (h y) = []) \<longrightarrow>
            tail_nodes (Suc k) h g = Some 0)"
proof (intro conjI impI)
  show "tail_nodes (Suc k) h g = tail_count_by_spec (tail_nodes k h) h g"
    using assms by (simp add: tail_count_by_spec_def tail_scan_find)
  show "\<exists>v. tail_nodes (Suc k) h g = Some v" if "nests_within (Suc k) h g"
    using that by (rule tail_nodes_total)
  show "tail_nodes (Suc k) h g = (if is_synth (h c) then Some 1 else tail_nodes k h c)"
    if "child_nodes (h g) = xs @ c # ys \<and>
          (\<forall>y \<in> set ys. \<not> is_synth (h y) \<and> child_nodes (h y) = []) \<and>
          (is_synth (h c) \<or> child_nodes (h c) \<noteq> [])"
    using that assms tail_scan_last [of ys h c "tail_nodes k h" xs]
    by simp
  show "tail_nodes (Suc k) h g = Some 0"
    if a: "\<forall>y \<in> set (child_nodes (h g)). \<not> is_synth (h y) \<and> child_nodes (h y) = []"
  proof -
    have "tail_scan (tail_nodes k h) h (rev (child_nodes (h g)) @ []) =
          tail_scan (tail_nodes k h) h []"
      using a by (intro tail_scan_skip) simp
    with assms show ?thesis by simp
  qed
qed

theorem group_tail_nodes_by_spec_witness:
  "\<not> is_parallel (nested_store 0) \<and>
   tail_nodes (Suc 2) nested_store 0 =
     tail_count_by_spec (tail_nodes 2 nested_store) nested_store 0 \<and>
   nests_within (Suc 2) nested_store 0 \<and>
   child_nodes (nested_store 0) = [1] @ 2 # [] \<and>
   \<not> is_synth (nested_store 2) \<and> child_nodes (nested_store 2) \<noteq> [] \<and>
   tail_nodes (Suc 2) nested_store 0 = tail_nodes 2 nested_store 2 \<and>
   tail_nodes (Suc 2) nested_store 0 = Some 1 \<and>
   \<not> is_parallel (nested_store 4) \<and> child_nodes (nested_store 4) = [] \<and>
   tail_nodes (Suc 0) nested_store 4 = Some 0"
proof -
  have p0: "\<not> is_parallel (nested_store 0)" and p4: "\<not> is_parallel (nested_store 4)"
    by (simp_all add: nested_store_def store_defs)
  have c0: "child_nodes (nested_store 0) = [1] @ 2 # []"
    and c2: "\<not> is_synth (nested_store 2)" "child_nodes (nested_store 2) \<noteq> []"
    and c4: "child_nodes (nested_store 4) = []"
    by (simp_all add: nested_store_def store_defs)
  have e: "\<forall>y \<in> set ([] :: addr list).
             \<not> is_synth (nested_store y) \<and> child_nodes (nested_store y) = []"
    by simp
  have n: "nests_within (Suc 2) nested_store 0"
    by (simp add: nested_store_def store_defs numeral_2_eq_2)
  have v: "tail_count_by_spec (tail_nodes 2 nested_store) nested_store 0 = Some 1"
    by (simp add: tail_count_by_spec_def nested_store_def store_defs numeral_2_eq_2)
  note t0 = group_tail_nodes_by_spec
    [where h = nested_store and g = 0 and k = 2 and xs = "[1]" and c = 2 and ys = "[]", OF p0]
  note t4 = group_tail_nodes_by_spec [where h = nested_store and g = 4 and k = 0, OF p4]
  from t0 have 1: "tail_nodes (Suc 2) nested_store 0 =
      tail_count_by_spec (tail_nodes 2 nested_store) nested_store 0"
    by (rule conjunct1)
  from t0 c0 c2 e have "tail_nodes (Suc 2) nested_store 0 =
      (if is_synth (nested_store 2) then Some 1 else tail_nodes 2 nested_store 2)"
    by blast
  with c2 have 2: "tail_nodes (Suc 2) nested_store 0 = tail_nodes 2 nested_store 2"
    by (simp only: if_False)
  have "\<forall>y \<in> set (child_nodes (nested_store 4)).
          \<not> is_synth (nested_store y) \<and> child_nodes (nested_store y) = []"
    by (simp add: c4)
  with t4 have 3: "tail_nodes (Suc 0) nested_store 4 = Some 0"
    by blast
  from 1 v have 4: "tail_nodes (Suc 2) nested_store 0 = Some 1"
    by (simp del: tail_nodes.simps)
  from p0 p4 c0 c2 c4 n 1 2 3 4 show ?thesis by blast
qed

lemma synth_scan_mono:
  "(\<And>c v. hs c = Some v \<Longrightarrow> hs' c = Some v) \<Longrightarrow>
   synth_scan hs h cs = Some v \<Longrightarrow> synth_scan hs' h cs = Some v"
  by (induction cs) (auto split: if_splits option.splits bool.splits)

lemma has_synth_children_Suc:
  "has_synth_children k h g = Some v \<Longrightarrow> has_synth_children (Suc k) h g = Some v"
proof (induction k arbitrary: g v)
  case 0
  then show ?case by simp
next
  case (Suc k)
  from Suc.prems have "synth_scan (has_synth_children k h) h (child_nodes (h g)) = Some v"
    by simp
  then have "synth_scan (has_synth_children (Suc k) h) h (child_nodes (h g)) = Some v"
    by (rule synth_scan_mono [rotated]) (rule Suc.IH)
  then show ?case by simp
qed

lemma has_synth_children_more_fuel:
  "has_synth_children k h g = Some v \<Longrightarrow> has_synth_children (k + j) h g = Some v"
  by (induction j) (auto intro: has_synth_children_Suc simp del: has_synth_children.simps)

text \<open>The hollow store holds a well-formed tree.\<close>

lemma hollow_store_shaped:
  "shaped hollow_store hollow_tree \<and> distinct (addrs hollow_tree)"
  by (simp add: hollow_tree_def hollow_store_def group_ok_def store_defs)

text \<open>
  C10: the hollow store holds a sequential group 0 with the synth 1 and, after it, the
  group 2 whose only child is the empty group 4. The scan of 0 finds the non-empty
  group 2 first and returns its count, which is 0; the synth 1 is never looked at. So
  \<open>tail_nodes\<close> of 0 is 0 while \<open>has_synth_children\<close> of 0 is true, with any fuel
  that lets the calls return.
\<close>

theorem tail_zero_with_synth:
  "\<not> is_synth (hollow_store 0) \<and> \<not> is_parallel (hollow_store 0) \<and>
   child_nodes (hollow_store 0) = [1, 2] \<and> is_synth (hollow_store 1) \<and>
   \<not> is_synth (hollow_store 2) \<and> \<not> is_parallel (hollow_store 2) \<and>
   child_nodes (hollow_store 2) = [4] \<and>
   \<not> is_synth (hollow_store 4) \<and> child_nodes (hollow_store 4) = [] \<and>
   tail_nodes (2 + j) hollow_store 2 = Some 0 \<and>
   tail_nodes (3 + j) hollow_store 0 = Some 0 \<and>
   has_synth_children (3 + j) hollow_store 0 = Some True"
proof -
  have e: "tail_nodes 2 hollow_store 2 = Some 0" "tail_nodes 3 hollow_store 0 = Some 0"
    "has_synth_children 3 hollow_store 0 = Some True"
    by (simp_all add: hollow_store_def store_defs numeral_2_eq_2 numeral_3_eq_3)
  have "tail_nodes (2 + j) hollow_store 2 = Some 0"
    using e(1) by (rule tail_nodes_more_fuel)
  moreover have "tail_nodes (3 + j) hollow_store 0 = Some 0"
    using e(2) by (rule tail_nodes_more_fuel)
  moreover have "has_synth_children (3 + j) hollow_store 0 = Some True"
    using e(3) by (rule has_synth_children_more_fuel)
  ultimately show ?thesis by (simp add: hollow_store_def store_defs)
qed

lemma sum_tails_map:
  "\<forall>c \<in> set cs. F c = Some (f c) \<Longrightarrow> sum_tails (map F cs) = Some (sum_list (map f cs))"
  by (induction cs) auto

lemma empty_group_tail: "child_nodes (h c) = [] \<Longrightarrow> tail_nodes (Suc j) h c = Some 0"
  by (simp add: parallel_tail_nodes_def)

text \<open>
  C5: for a parallel group \<open>tail_nodes\<close> is the sum of the tail counts of its direct
  children, where \<open>f c\<close> is the count of the child \<open>c\<close>: 1 for a synth, its own
  \<open>tail_nodes\<close> for a group. A child that is an empty group counts 0.
\<close>

theorem parallel_tail_nodes_sum:
  assumes "is_parallel (h g)"
    and "\<forall>c \<in> set (child_nodes (h g)).
           (if is_synth (h c) then Some 1 else tail_nodes k h c) = Some (f c)"
  shows "tail_nodes (Suc k) h g = Some (sum_list (map f (child_nodes (h g)))) \<and>
         (\<forall>c \<in> set (child_nodes (h g)).
            \<not> is_synth (h c) \<and> child_nodes (h c) = [] \<longrightarrow> f c = 0)"
proof
  show "tail_nodes (Suc k) h g = Some (sum_list (map f (child_nodes (h g))))"
    using assms by (simp add: parallel_tail_nodes_def sum_tails_map)
  show "\<forall>c \<in> set (child_nodes (h g)). \<not> is_synth (h c) \<and> child_nodes (h c) = [] \<longrightarrow> f c = 0"
  proof (intro ballI impI)
    fix c
    assume c: "c \<in> set (child_nodes (h g))" "\<not> is_synth (h c) \<and> child_nodes (h c) = []"
    with assms(2) have t: "tail_nodes k h c = Some (f c)" by auto
    then obtain j where "k = Suc j" by (cases k) auto
    with t c empty_group_tail [of h c j] show "f c = 0" by (simp del: tail_nodes.simps)
  qed
qed

theorem parallel_tail_nodes_sum_witness:
  "is_parallel (parallel_store 5) \<and> child_nodes (parallel_store 5) = [1, 0, 4] \<and> 
   (if is_synth (parallel_store 1) then Some 1 else tail_nodes 2 parallel_store 1) = Some 1 \<and>
   (if is_synth (parallel_store 0) then Some 1 else tail_nodes 2 parallel_store 0) = Some 1 \<and>
   (if is_synth (parallel_store 4) then Some 1 else tail_nodes 2 parallel_store 4) = Some 0 \<and>
   tail_nodes (Suc 2) parallel_store 5 = Some 2"
proof -
  have a: "is_parallel (parallel_store 5)" "child_nodes (parallel_store 5) = [1, 0, 4]"
    by (simp_all add: parallel_store_def store_defs)
  have b:
    "(if is_synth (parallel_store 1) then Some 1 else tail_nodes 2 parallel_store 1) = Some 1"
    "(if is_synth (parallel_store 0) then Some 1 else tail_nodes 2 parallel_store 0) = Some 1"
    "(if is_synth (parallel_store 4) then Some 1 else tail_nodes 2 parallel_store 4) = Some 0"
    by (simp_all add: parallel_store_def store_defs numeral_2_eq_2)
  have c: "\<forall>c \<in> set (child_nodes (parallel_store 5)).
      (if is_synth (parallel_store c) then Some 1 else tail_nodes 2 parallel_store c)
        = Some ((\<lambda>c. if c = 4 then 0 else 1) c)"
    by (simp add: a) (simp add: parallel_store_def store_defs numeral_2_eq_2)
  from parallel_tail_nodes_sum [OF a(1) c]
  have "tail_nodes (Suc 2) parallel_store 5 = Some 2" by (simp add: a)
  with a b show ?thesis by simp
qed


section \<open>The counters and the child list\<close>

lemma set_parent_Inr:
  assumes "set_parent h n (Some p) = Inr h'"
  shows "parent (h n) = None"
    and "is_synth (h' a) = is_synth (h a)"
    and "child_nodes (h' a) = child_nodes (h a)"
    and "is_parallel (h' a) = is_parallel (h a)"
    and "parent (h' a) = (if a = n then Some p else parent (h a))"
    and "use_count (h' a) = (if a = n then use_count (h a) + 1 else use_count (h a))"
    and "child_synths (h' a) =
           (if a = p \<and> is_synth (h n) then child_synths (h a) + 1 else child_synths (h a))"
    and "child_groups (h' a) =
           (if a = p \<and> \<not> is_synth (h n) then child_groups (h a) + 1 else child_groups (h a))"
  using assms by (auto simp: set_parent_Some Let_def split: if_splits)

lemma clear_parent_returns:
  "parent (h n) = Some p \<Longrightarrow> \<exists>h'. clear_parent h n = Inr h'"
  by (simp add: clear_parent_def Let_def)

lemma clear_parent_Inr:
  assumes "clear_parent h n = Inr h'" and "parent (h n) = Some p"
  shows "is_synth (h' a) = is_synth (h a)"
    and "child_nodes (h' a) = child_nodes (h a)"
    and "is_parallel (h' a) = is_parallel (h a)"
    and "parent (h' a) = (if a = n then None else parent (h a))"
    and "use_count (h' a) = (if a = n then use_count (h a) - 1 else use_count (h a))"
    and "child_synths (h' a) =
           (if a = p \<and> is_synth (h n) then child_synths (h a) - 1 else child_synths (h a))"
    and "child_groups (h' a) =
           (if a = p \<and> \<not> is_synth (h n) then child_groups (h a) - 1 else child_groups (h a))"
  using assms
  by (auto simp: clear_parent_def release_def Let_def split: if_splits)

lemma length_filter_insert:
  "length (filter P (take i xs @ n # drop i xs)) = length (filter P xs) + (if P n then 1 else 0)"
proof -
  have "length (filter P xs) = length (filter P (take i xs @ drop i xs))" by simp
  also have "\<dots> = length (filter P (take i xs)) + length (filter P (drop i xs))"
    by (simp only: filter_append length_append)
  finally show ?thesis by simp
qed

lemma length_filter_remove1:
  "n \<in> set xs \<Longrightarrow>
   length (filter P xs) = length (filter P (remove1 n xs)) + (if P n then 1 else 0)"
  by (induction xs) auto

lemma add_child_group_ok:
  assumes ok: "group_ok h g" and r: "add_child h g n i = Inr h'"
  shows "group_ok h' g"
proof -
  let ?xs = "child_nodes (h g)"
  let ?h1 = "h(g := (h g)\<lparr>child_nodes := take i ?xs @ n # drop i ?xs\<rparr>)"
  from r have sp: "set_parent ?h1 n (Some g) = Inr h'"
    by (simp add: add_child_def Let_def)
  note f = set_parent_Inr [OF sp]
  from f(1) have pn: "parent (h n) = None" by (simp split: if_splits)
  with ok have nin: "n \<notin> set ?xs" by (auto simp: group_ok_def)
  have syn: "\<And>a. is_synth (h' a) = is_synth (h a)" by (simp add: f(2))
  have xs': "child_nodes (h' g) = take i ?xs @ n # drop i ?xs" by (simp add: f(3))
  have par: "\<And>c. c \<in> set ?xs \<Longrightarrow> parent (h' c) = Some g"
    using ok nin by (auto simp: f(5) group_ok_def)
  have mem: "set (child_nodes (h' g)) \<subseteq> insert n (set ?xs)"
    unfolding xs' by (auto dest: in_set_takeD in_set_dropD)
  have pn': "parent (h' n) = Some g" by (simp add: f(5))
  have bp: "\<forall>c \<in> set (child_nodes (h' g)). parent (h' c) = Some g"
  proof
    fix c assume "c \<in> set (child_nodes (h' g))"
    with mem have "c = n \<or> c \<in> set ?xs" by auto
    then show "parent (h' c) = Some g" using pn' par by auto
  qed
  have "distinct (take i ?xs @ drop i ?xs)" using ok by (simp add: group_ok_def)
  then have d3: "distinct (take i ?xs)" "distinct (drop i ?xs)"
      "set (take i ?xs) \<inter> set (drop i ?xs) = {}"
    unfolding distinct_append by blast+
  have "n \<notin> set (take i ?xs)" "n \<notin> set (drop i ?xs)"
    using nin by (auto dest: in_set_takeD in_set_dropD)
  with d3 have dist: "distinct (child_nodes (h' g))"
    unfolding xs' by auto
  have cs: "child_synths (h' g) = of_nat (length (filter (\<lambda>c. is_synth (h' c)) (child_nodes (h' g))))"
    using ok unfolding xs' syn length_filter_insert by (simp add: f(7) group_ok_def)
  have cg: "child_groups (h' g) = of_nat (length (filter (\<lambda>c. \<not> is_synth (h' c)) (child_nodes (h' g))))"
    using ok unfolding xs' syn length_filter_insert by (simp add: f(8) group_ok_def)
  from bp dist cs cg show ?thesis by (simp add: group_ok_def)
qed

lemma remove_child_group_ok:
  assumes ok: "group_ok h g" and r: "remove_child h g n = Inr h'"
  shows "group_ok h' g"
proof -
  let ?xs = "child_nodes (h g)"
  let ?h1 = "h(g := (h g)\<lparr>child_nodes := remove1 n ?xs\<rparr>)"
  from r have nin: "n \<in> set ?xs" and cp: "clear_parent ?h1 n = Inr h'"
    by (auto simp: remove_child_def has_child_def Let_def split: if_splits)
  from ok nin have pn: "parent (h n) = Some g" by (simp add: group_ok_def)
  then have pn1: "parent (?h1 n) = Some g" by auto
  note f = clear_parent_Inr [OF cp pn1]
  have sn1: "is_synth (?h1 n) = is_synth (h n)" by simp
  have syn: "\<And>a. is_synth (h' a) = is_synth (h a)" by (simp add: f(1))
  have xs': "child_nodes (h' g) = remove1 n ?xs" by (simp add: f(2))
  from ok have d: "distinct ?xs" by (simp add: group_ok_def)
  have bp: "\<forall>c \<in> set (child_nodes (h' g)). parent (h' c) = Some g"
    unfolding xs' using ok d by (auto simp: f(4) group_ok_def)
  have dist: "distinct (child_nodes (h' g))" unfolding xs' using d by simp
  have cs: "child_synths (h' g) = of_nat (length (filter (\<lambda>c. is_synth (h' c)) (child_nodes (h' g))))"
    using ok length_filter_remove1 [OF nin, of "\<lambda>c. is_synth (h c)"]
    unfolding xs' syn f(6) sn1 by (simp add: group_ok_def)
  have cg: "child_groups (h' g) = of_nat (length (filter (\<lambda>c. \<not> is_synth (h' c)) (child_nodes (h' g))))"
    using ok length_filter_remove1 [OF nin, of "\<lambda>c. \<not> is_synth (h c)"]
    unfolding xs' syn f(7) sn1 by (simp add: group_ok_def)
  from bp dist cs cg show ?thesis by (simp add: group_ok_def)
qed

lemma run_ops_group_ok:
  "group_ok h g \<Longrightarrow> run_ops h g ops = Inr h' \<Longrightarrow> group_ok h' g"
proof (induction ops arbitrary: h)
  case Nil
  then show ?case by simp
next
  case (Cons x ops)
  from Cons.prems(2) obtain h1 where s: "apply_op h g x = Inr h1" and r: "run_ops h1 g ops = Inr h'"
    by (auto split: sum.splits)
  from s Cons.prems(1) have "group_ok h1 g"
    by (cases x) (auto intro: add_child_group_ok remove_child_group_ok)
  with r show ?case by (rule Cons.IH [rotated])
qed

lemma group_ok_child_count:
  assumes "group_ok h g"
  shows "child_count h g = of_nat (length (child_nodes (h g)))"
proof -
  have "length (child_nodes (h g)) =
          length (filter (\<lambda>c. is_synth (h c)) (child_nodes (h g))) +
          length (filter (\<lambda>c. \<not> is_synth (h c)) (child_nodes (h g)))"
    by (rule sum_length_filter_compl [symmetric])
  with assms show ?thesis by (simp add: child_count_def group_ok_def)
qed

text \<open>
  \<open>set_parent\<close> moves exactly one counter of the target up by one, \<open>clear_parent\<close>
  exactly one counter of the parent down by one; neither touches a child list.
\<close>

lemma set_parent_child_count:
  "set_parent h n (Some g) = Inr h' \<Longrightarrow> child_count h' g = child_count h g + 1"
  by (auto simp: set_parent_Some child_count_def Let_def split: if_splits)

lemma clear_parent_child_count:
  "parent (h n) = Some g \<Longrightarrow> clear_parent h n = Inr h' \<Longrightarrow>
   child_count h' g = child_count h g - 1"
  by (auto simp: clear_parent_def release_def child_count_def Let_def split: if_splits)

lemma set_parent_keeps_list:
  "set_parent h n (Some g) = Inr h' \<Longrightarrow> child_nodes (h' a) = child_nodes (h a)"
  by (auto simp: set_parent_Some Let_def split: if_splits)

lemma clear_parent_keeps_list:
  "clear_parent h n = Inr h' \<Longrightarrow> child_nodes (h' a) = child_nodes (h a)"
  by (auto simp: clear_parent_def release_def Let_def split: option.splits if_splits)

text \<open>A group as its constructor builds it is consistent.\<close>

lemma constructed_group_ok:
  "child_nodes (h g) = [] \<Longrightarrow> child_synths (h g) = 0 \<Longrightarrow> child_groups (h g) = 0 \<Longrightarrow>
   group_ok h g"
  by (simp add: group_ok_def)

text \<open>
  C1: take a group \<open>g\<close> in the state the code keeps it in, as its constructor builds
  it or as these operations leave it, and any sequence of attach and detach operations
  on its children. After every operation of the sequence, that is after every prefix
  \<open>take k ops\<close> that has run, \<open>child_synths + child_groups\<close> equals the size of the
  child list, compared as \<open>std::size_t\<close>, and the group is in that state again. An
  attach links the node and calls \<open>set_parent\<close>, which increments exactly one of the
  two counters, by the node's kind; a detach unlinks the node and calls
  \<open>clear_parent\<close>, which decrements the same counter. Neither of the two calls changes
  the child list itself.
\<close>

theorem child_count_invariant:
  assumes "group_ok h g"
  shows "(\<forall>k hk. run_ops h g (take k ops) = Inr hk \<longrightarrow>
            child_count hk g = of_nat (length (child_nodes (hk g))) \<and> group_ok hk g) \<and>
         (\<forall>h'. set_parent h n (Some g) = Inr h' \<longrightarrow>
            child_count h' g = child_count h g + 1 \<and>
            child_nodes (h' g) = child_nodes (h g) \<and>
            (if is_synth (h n)
             then child_synths (h' g) = child_synths (h g) + 1 \<and>
                  child_groups (h' g) = child_groups (h g)
             else child_groups (h' g) = child_groups (h g) + 1 \<and>
                  child_synths (h' g) = child_synths (h g))) \<and>
         (\<forall>h'. parent (h n) = Some g \<and> clear_parent h n = Inr h' \<longrightarrow>
            child_count h' g = child_count h g - 1 \<and>
            child_nodes (h' g) = child_nodes (h g) \<and>
            (if is_synth (h n)
             then child_synths (h' g) = child_synths (h g) - 1 \<and>
                  child_groups (h' g) = child_groups (h g)
             else child_groups (h' g) = child_groups (h g) - 1 \<and>
                  child_synths (h' g) = child_synths (h g)))"
proof -
  have 1: "\<forall>k hk. run_ops h g (take k ops) = Inr hk \<longrightarrow>
            child_count hk g = of_nat (length (child_nodes (hk g))) \<and> group_ok hk g"
    using assms by (blast intro: run_ops_group_ok group_ok_child_count)
  have 2: "\<forall>h'. set_parent h n (Some g) = Inr h' \<longrightarrow>
            child_count h' g = child_count h g + 1 \<and>
            child_nodes (h' g) = child_nodes (h g) \<and>
            (if is_synth (h n)
             then child_synths (h' g) = child_synths (h g) + 1 \<and>
                  child_groups (h' g) = child_groups (h g)
             else child_groups (h' g) = child_groups (h g) + 1 \<and>
                  child_synths (h' g) = child_synths (h g))"
  proof (intro allI impI)
    fix h' assume r: "set_parent h n (Some g) = Inr h'"
    note f = set_parent_Inr [OF r]
    have "child_count h' g = child_count h g + 1"
      using r by (rule set_parent_child_count)
    then show "child_count h' g = child_count h g + 1 \<and>
            child_nodes (h' g) = child_nodes (h g) \<and>
            (if is_synth (h n)
             then child_synths (h' g) = child_synths (h g) + 1 \<and>
                  child_groups (h' g) = child_groups (h g)
             else child_groups (h' g) = child_groups (h g) + 1 \<and>
                  child_synths (h' g) = child_synths (h g))"
      by (simp add: f(3,7,8))
  qed
  have 3: "\<forall>h'. parent (h n) = Some g \<and> clear_parent h n = Inr h' \<longrightarrow>
            child_count h' g = child_count h g - 1 \<and>
            child_nodes (h' g) = child_nodes (h g) \<and>
            (if is_synth (h n)
             then child_synths (h' g) = child_synths (h g) - 1 \<and>
                  child_groups (h' g) = child_groups (h g)
             else child_groups (h' g) = child_groups (h g) - 1 \<and>
                  child_synths (h' g) = child_synths (h g))"
  proof (intro allI impI)
    fix h' assume "parent (h n) = Some g \<and> clear_parent h n = Inr h'"
    then have p: "parent (h n) = Some g" and r: "clear_parent h n = Inr h'" by simp_all
    note f = clear_parent_Inr [OF r p]
    have "child_count h' g = child_count h g - 1"
      using p r by (rule clear_parent_child_count)
    then show "child_count h' g = child_count h g - 1 \<and>
            child_nodes (h' g) = child_nodes (h g) \<and>
            (if is_synth (h n)
             then child_synths (h' g) = child_synths (h g) - 1 \<and>
                  child_groups (h' g) = child_groups (h g)
             else child_groups (h' g) = child_groups (h g) - 1 \<and>
                  child_synths (h' g) = child_synths (h g))"
      by (simp add: f(2,6,7))
  qed
  from 1 2 3 show ?thesis by (intro conjI)
qed

theorem child_count_invariant_witness:
  "group_ok held_store 0 \<and>
   \<not> isl (run_ops held_store 0 (take 3 attach_detach_ops)) \<and>
   child_nodes (projr (run_ops held_store 0 (take 3 attach_detach_ops)) 0) = [2, 3, 1] \<and>
   child_count (projr (run_ops held_store 0 (take 3 attach_detach_ops))) 0 = 3 \<and>
   \<not> isl (run_ops held_store 0 (take 4 attach_detach_ops)) \<and>
   child_nodes (projr (run_ops held_store 0 (take 4 attach_detach_ops)) 0) = [3, 1] \<and>
   child_count (projr (run_ops held_store 0 (take 4 attach_detach_ops))) 0 = 2 \<and>
   use_count (projr (run_ops held_store 0 (take 4 attach_detach_ops)) 2) = 1 \<and>
   \<not> isl (set_parent held_store 1 (Some 0)) \<and>
   child_synths (projr (set_parent held_store 1 (Some 0)) 0) = 1 \<and>
   child_groups (projr (set_parent held_store 1 (Some 0)) 0) = 0 \<and>
   group_ok nested_store 0 \<and> parent (nested_store 2) = Some 0 \<and>
   \<not> isl (clear_parent nested_store 2) \<and>
   child_synths (projr (clear_parent nested_store 2) 0) = 1 \<and>
   child_groups (projr (clear_parent nested_store 2) 0) = 0"
proof -
  have ok: "group_ok held_store 0"
    by (rule constructed_group_ok) (simp_all add: held_store_def store_defs)
  have ok': "group_ok nested_store 0"
    by (simp add: group_ok_def nested_store_def store_defs)
  have ev3: "\<not> isl (run_ops held_store 0 (take 3 attach_detach_ops))"
    "child_nodes (projr (run_ops held_store 0 (take 3 attach_detach_ops)) 0) = [2, 3, 1]"
    by (simp_all add: attach_detach_ops_def add_child_def remove_child_def has_child_def
          set_parent_Some clear_parent_def release_def Let_def held_store_def store_defs)
  have ev4: "\<not> isl (run_ops held_store 0 (take 4 attach_detach_ops))"
    "child_nodes (projr (run_ops held_store 0 (take 4 attach_detach_ops)) 0) = [3, 1]"
    "use_count (projr (run_ops held_store 0 (take 4 attach_detach_ops)) 2) = 1"
    by (simp_all add: attach_detach_ops_def add_child_def remove_child_def has_child_def
          set_parent_Some clear_parent_def release_def Let_def held_store_def store_defs)
  have evs: "\<not> isl (set_parent held_store 1 (Some 0))" "is_synth (held_store 1)"
    "child_synths (held_store 0) = 0" "child_groups (held_store 0) = 0"
    by (simp_all add: set_parent_Some held_store_def store_defs)
  have evc: "\<not> isl (clear_parent nested_store 2)" "parent (nested_store 2) = Some 0"
    "\<not> is_synth (nested_store 2)"
    "child_synths (nested_store 0) = 1" "child_groups (nested_store 0) = 1"
    by (simp_all add: clear_parent_def Let_def nested_store_def store_defs)
  from ev3(1) obtain h3 where h3: "run_ops held_store 0 (take 3 attach_detach_ops) = Inr h3"
    by (cases "run_ops held_store 0 (take 3 attach_detach_ops)") auto
  from ev4(1) obtain h4 where h4: "run_ops held_store 0 (take 4 attach_detach_ops) = Inr h4"
    by (cases "run_ops held_store 0 (take 4 attach_detach_ops)") auto
  from evs(1) obtain hs where hs: "set_parent held_store 1 (Some 0) = Inr hs"
    by (cases "set_parent held_store 1 (Some 0)") auto
  from evc(1) obtain hc where hc: "clear_parent nested_store 2 = Inr hc"
    by (cases "clear_parent nested_store 2") auto
  note t = child_count_invariant [OF ok, of attach_detach_ops 1]
  note t' = child_count_invariant [OF ok', of "[]" 2]
  from t h3 h4
  have "child_count h3 0 = of_nat (length (child_nodes (h3 0)))"
       "child_count h4 0 = of_nat (length (child_nodes (h4 0)))"
    by blast+
  with ev3(2) ev4(2) h3 h4 have c34: "child_count h3 0 = 3" "child_count h4 0 = 2"
    by simp_all
  from t hs have "if is_synth (held_store 1)
     then child_synths (hs 0) = child_synths (held_store 0) + 1 \<and>
          child_groups (hs 0) = child_groups (held_store 0)
     else child_groups (hs 0) = child_groups (held_store 0) + 1 \<and>
          child_synths (hs 0) = child_synths (held_store 0)"
    by blast
  with evs have cs: "child_synths (hs 0) = 1" "child_groups (hs 0) = 0" by simp_all
  from t' hc evc(2) have "if is_synth (nested_store 2)
     then child_synths (hc 0) = child_synths (nested_store 0) - 1 \<and>
          child_groups (hc 0) = child_groups (nested_store 0)
     else child_groups (hc 0) = child_groups (nested_store 0) - 1 \<and>
          child_synths (hc 0) = child_synths (nested_store 0)"
    by blast
  with evc have cc: "child_synths (hc 0) = 1" "child_groups (hc 0) = 0" by simp_all
  from ok ok' ev3 ev4 evs(1) evc(1,2) h3 h4 hs hc c34 cs cc show ?thesis by simp
qed

section \<open>Freeing all children\<close>

lemma clear_and_dispose_fields:
  assumes "distinct cs" and "\<forall>c \<in> set cs. parent (h c) = Some g"
  shows "\<exists>h'. clear_and_dispose h cs = Inr h' \<and>
           (\<forall>a. is_synth (h' a) = is_synth (h a) \<and>
                child_nodes (h' a) = child_nodes (h a) \<and>
                is_parallel (h' a) = is_parallel (h a) \<and>
                parent (h' a) = (if a \<in> set cs then None else parent (h a)) \<and>
                use_count (h' a) = (if a \<in> set cs then use_count (h a) - 1 else use_count (h a)) \<and>
                child_synths (h' a) =
                  (if a = g then child_synths (h a) - of_nat (length (filter (\<lambda>c. is_synth (h c)) cs))
                   else child_synths (h a)) \<and>
                child_groups (h' a) =
                  (if a = g then child_groups (h a) - of_nat (length (filter (\<lambda>c. \<not> is_synth (h c)) cs))
                   else child_groups (h a)))"
  using assms
proof (induction cs arbitrary: h)
  case Nil
  then show ?case by simp
next
  case (Cons c cs)
  from Cons.prems have pc: "parent (h c) = Some g" by simp
  then obtain h1 where h1: "clear_parent h c = Inr h1"
    using clear_parent_returns by blast
  note f = clear_parent_Inr [OF h1 pc]
  have "\<forall>x \<in> set cs. parent (h1 x) = Some g"
    using Cons.prems by (auto simp: f(4))
  with Cons.prems(1) Cons.IH [of h1] obtain h' where
    r: "clear_and_dispose h1 cs = Inr h'" and
    p: "\<And>a. is_synth (h' a) = is_synth (h1 a) \<and>
                child_nodes (h' a) = child_nodes (h1 a) \<and>
                is_parallel (h' a) = is_parallel (h1 a) \<and>
                parent (h' a) = (if a \<in> set cs then None else parent (h1 a)) \<and>
                use_count (h' a) = (if a \<in> set cs then use_count (h1 a) - 1 else use_count (h1 a)) \<and>
                child_synths (h' a) =
                  (if a = g then child_synths (h1 a) - of_nat (length (filter (\<lambda>c. is_synth (h1 c)) cs))
                   else child_synths (h1 a)) \<and>
                child_groups (h' a) =
                  (if a = g then child_groups (h1 a) - of_nat (length (filter (\<lambda>c. \<not> is_synth (h1 c)) cs))
                   else child_groups (h1 a))"
    by auto
  have "clear_and_dispose h (c # cs) = Inr h'" using h1 r by simp
  moreover have "\<And>a. is_synth (h' a) = is_synth (h a) \<and>
                child_nodes (h' a) = child_nodes (h a) \<and>
                is_parallel (h' a) = is_parallel (h a) \<and>
                parent (h' a) = (if a \<in> set (c # cs) then None else parent (h a)) \<and>
                use_count (h' a) = (if a \<in> set (c # cs) then use_count (h a) - 1 else use_count (h a)) \<and>
                child_synths (h' a) =
                  (if a = g then child_synths (h a) - of_nat (length (filter (\<lambda>c. is_synth (h c)) (c # cs)))
                   else child_synths (h a)) \<and>
                child_groups (h' a) =
                  (if a = g then child_groups (h a) - of_nat (length (filter (\<lambda>c. \<not> is_synth (h c)) (c # cs)))
                   else child_groups (h a))"
    using Cons.prems(1) by (auto simp add: p f)
  ultimately show ?case by blast
qed

lemma clear_and_dispose_Inr:
  assumes "clear_and_dispose h cs = Inr h'"
  shows "(\<forall>c \<in> set cs. parent (h c) \<noteq> None) \<and> distinct cs \<and>
         (\<forall>a. child_nodes (h' a) = child_nodes (h a) \<and>
              parent (h' a) = (if a \<in> set cs then None else parent (h a)) \<and>
              use_count (h' a) = (if a \<in> set cs then use_count (h a) - 1 else use_count (h a)))"
  using assms
proof (induction cs arbitrary: h)
  case Nil
  then show ?case by simp
next
  case (Cons c cs)
  from Cons.prems obtain h1 where h1: "clear_parent h c = Inr h1"
    and r: "clear_and_dispose h1 cs = Inr h'"
    by (auto split: sum.splits)
  from h1 obtain p where pc: "parent (h c) = Some p"
    by (auto simp: clear_parent_def split: option.splits)
  note f = clear_parent_Inr [OF h1 pc]
  from Cons.IH [OF r] have
    i1: "\<forall>x \<in> set cs. parent (h1 x) \<noteq> None" and i2: "distinct cs" and
    i3: "\<And>a. child_nodes (h' a) = child_nodes (h1 a) \<and>
              parent (h' a) = (if a \<in> set cs then None else parent (h1 a)) \<and>
              use_count (h' a) = (if a \<in> set cs then use_count (h1 a) - 1 else use_count (h1 a))"
    by auto
  from i1 have nin: "c \<notin> set cs" by (auto simp: f(4))
  from i1 have "\<forall>x \<in> set cs. parent (h x) \<noteq> None" by (auto simp: f(4) split: if_splits)
  with pc nin i2 show ?case by (auto simp: i3 f)
qed

lemma free_children_Inr:
  assumes "free_children h g = Inr h'"
  shows "child_nodes (h' g) = [] \<and> child_synths (h' g) = 0 \<and> child_groups (h' g) = 0 \<and>
         (\<forall>c \<in> set (child_nodes (h g)).
            parent (h' c) = None \<and> use_count (h' c) = use_count (h c) - 1)"
proof -
  from assms obtain h1 where r: "clear_and_dispose h (child_nodes (h g)) = Inr h1"
    and h': "h' = h1(g := (h1 g)\<lparr>child_nodes := []\<rparr>)"
    and z: "child_synths (h1 g) = 0" "child_groups (h1 g) = 0"
    by (auto simp: free_children_def Let_def split: sum.splits if_splits)
  from clear_and_dispose_Inr [OF r] have
    "\<forall>c \<in> set (child_nodes (h g)). parent (h1 c) = None \<and> use_count (h1 c) = use_count (h c) - 1"
    by simp
  with z show ?thesis by (simp add: h')
qed

lemma free_children_returns:
  assumes "group_ok h g"
  shows "\<exists>h'. free_children h g = Inr h' \<and>
           child_nodes (h' g) = [] \<and> child_synths (h' g) = 0 \<and> child_groups (h' g) = 0 \<and>
           (\<forall>c \<in> set (child_nodes (h g)).
              parent (h' c) = None \<and> use_count (h' c) = use_count (h c) - 1)"
proof -
  let ?cs = "child_nodes (h g)"
  from assms have "distinct ?cs" "\<forall>c \<in> set ?cs. parent (h c) = Some g"
    by (simp_all add: group_ok_def)
  from clear_and_dispose_fields [OF this] obtain h1 where
    r: "clear_and_dispose h ?cs = Inr h1" and
    p: "\<And>a. is_synth (h1 a) = is_synth (h a) \<and>
                child_nodes (h1 a) = child_nodes (h a) \<and>
                is_parallel (h1 a) = is_parallel (h a) \<and>
                parent (h1 a) = (if a \<in> set ?cs then None else parent (h a)) \<and>
                use_count (h1 a) = (if a \<in> set ?cs then use_count (h a) - 1 else use_count (h a)) \<and>
                child_synths (h1 a) =
                  (if a = g then child_synths (h a) - of_nat (length (filter (\<lambda>c. is_synth (h c)) ?cs))
                   else child_synths (h a)) \<and>
                child_groups (h1 a) =
                  (if a = g then child_groups (h a) - of_nat (length (filter (\<lambda>c. \<not> is_synth (h c)) ?cs))
                   else child_groups (h a))"
    by auto
  let ?h2 = "h1(g := (h1 g)\<lparr>child_nodes := []\<rparr>)"
  have z: "child_synths (?h2 g) = 0" "child_groups (?h2 g) = 0"
    using assms by (simp_all add: p group_ok_def)
  then have "free_children h g = Inr ?h2"
    using r by (simp add: free_children_def Let_def)
  moreover have "\<forall>c \<in> set ?cs. parent (?h2 c) = None \<and> use_count (?h2 c) = use_count (h c) - 1"
    by (simp add: p)
  ultimately show ?thesis using z by auto
qed

text \<open>
  C8: on a consistent group \<open>free_children\<close> returns, both assertions holding. And
  whenever it returns, for any group, the child list is empty, both counters are zero,
  and every former child has a null parent pointer and one reference less.
\<close>

theorem free_children_post:
  "(group_ok h g \<longrightarrow> (\<exists>h'. free_children h g = Inr h')) \<and>
   (\<forall>h'. free_children h g = Inr h' \<longrightarrow>
      child_nodes (h' g) = [] \<and> child_synths (h' g) = 0 \<and> child_groups (h' g) = 0 \<and>
      (\<forall>c \<in> set (child_nodes (h g)).
         parent (h' c) = None \<and> use_count (h' c) = use_count (h c) - 1))"
  using free_children_returns [of h g] free_children_Inr [of h g] by blast

theorem free_children_post_witness:
  "group_ok nested_store 0 \<and> child_nodes (nested_store 0) = [1, 2] \<and>
   (\<exists>h'. free_children nested_store 0 = Inr h' \<and>
      child_nodes (h' 0) = [] \<and> child_synths (h' 0) = 0 \<and> child_groups (h' 0) = 0 \<and>
      parent (h' 1) = None \<and> use_count (h' 1) = 0 \<and>
      parent (h' 2) = None \<and> use_count (h' 2) = 0)"
proof -
  have ok: "group_ok nested_store 0"
    by (simp add: group_ok_def nested_store_def store_defs)
  have v: "child_nodes (nested_store 0) = [1, 2]"
    "use_count (nested_store 1) = 1" "use_count (nested_store 2) = 1"
    by (simp_all add: nested_store_def store_defs)
  from free_children_post [of nested_store 0] ok
  obtain h' where r: "free_children nested_store 0 = Inr h'" by blast
  with free_children_post [of nested_store 0] v
  have "child_nodes (h' 0) = [] \<and> child_synths (h' 0) = 0 \<and> child_groups (h' 0) = 0 \<and>
      parent (h' 1) = None \<and> use_count (h' 1) = 0 \<and>
      parent (h' 2) = None \<and> use_count (h' 2) = 0"
    by auto
  with ok v(1) r show ?thesis by blast
qed

section \<open>Freeing the synths of a subtree\<close>

lemma pruned_on_is_synth: "pruned_on as h h' \<Longrightarrow> is_synth (h' c) = is_synth (h c)"
  by (cases "c \<in> set as") (auto simp: pruned_on_def pruned_at_def)

lemma pruned_at_cong:
  assumes "h2 a = h1 a" and "\<And>c. is_synth (h2 c) = is_synth (h1 c)" and "h2' a = h1' a"
  shows "pruned_at h2 h2' a = pruned_at h1 h1' a"
  using assms by (simp add: pruned_at_def)

lemma pruned_on_Nil: "pruned_on [] h h"
  by (simp add: pruned_on_def)

lemma pruned_on_set: "set as = set bs \<Longrightarrow> pruned_on as h h' \<Longrightarrow> pruned_on bs h h'"
  by (simp add: pruned_on_def)

lemma pruned_on_append:
  assumes 1: "pruned_on as h h1" and 2: "pruned_on bs h1 h2" and d: "set as \<inter> set bs = {}"
  shows "pruned_on (as @ bs) h h2"
proof -
  have syn: "\<And>c. is_synth (h1 c) = is_synth (h c)"
    using 1 by (rule pruned_on_is_synth)
  have off: "\<forall>a. a \<notin> set (as @ bs) \<longrightarrow> h2 a = h a"
    using 1 2 by (simp add: pruned_on_def)
  have "\<forall>a \<in> set (as @ bs). pruned_at h h2 a"
  proof
    fix a assume "a \<in> set (as @ bs)"
    then consider "a \<in> set as" "a \<notin> set bs" | "a \<in> set bs" "a \<notin> set as"
      using d by auto
    then show "pruned_at h h2 a"
    proof cases
      case 1
      with 2 have "h2 a = h1 a" by (simp add: pruned_on_def)
      then have "pruned_at h h2 a = pruned_at h h1 a"
        by (intro pruned_at_cong) simp_all
      with 1 \<open>pruned_on as h h1\<close> show ?thesis by (simp add: pruned_on_def)
    next
      case 2
      with \<open>pruned_on as h h1\<close> have "h1 a = h a" by (simp add: pruned_on_def)
      then have "pruned_at h1 h2 a = pruned_at h h2 a"
        by (intro pruned_at_cong) (simp_all add: syn)
      with 2 \<open>pruned_on bs h1 h2\<close> show ?thesis by (simp add: pruned_on_def)
    qed
  qed
  with off show ?thesis by (simp add: pruned_on_def)
qed

lemma root_in_addrs: "root t \<in> set (addrs t)"
  by (cases t) simp

lemma height_le_foldr_max: "t \<in> set ts \<Longrightarrow> height t \<le> foldr max (map height ts) 0"
  by (induction ts) auto

lemma group_ok_cong:
  assumes "h2 g = h1 g" and "\<forall>c \<in> set (child_nodes (h1 g)). h2 c = h1 c" and "group_ok h1 g"
  shows "group_ok h2 g"
proof -
  have "filter (\<lambda>c. is_synth (h2 c)) (child_nodes (h1 g)) =
        filter (\<lambda>c. is_synth (h1 c)) (child_nodes (h1 g))"
       "filter (\<lambda>c. \<not> is_synth (h2 c)) (child_nodes (h1 g)) =
        filter (\<lambda>c. \<not> is_synth (h1 c)) (child_nodes (h1 g))"
    using assms(2) by (auto intro: filter_cong)
  with assms show ?thesis by (simp add: group_ok_def)
qed

lemma shaped_cong:
  "\<forall>a \<in> set (addrs t). h2 a = h1 a \<Longrightarrow> shaped h1 t \<Longrightarrow> shaped h2 t"
proof (induction t)
  case (Tree a ts)
  have a: "h2 a = h1 a" using Tree.prems(1) by simp
  show ?case
  proof (cases "is_synth (h1 a)")
    case True
    with Tree.prems a show ?thesis by simp
  next
    case False
    with Tree.prems(2) have cn: "child_nodes (h1 a) = map root ts" and ok: "group_ok h1 a"
      and sub: "\<forall>t \<in> set ts. shaped h1 t" by simp_all
    have ch: "\<forall>c \<in> set (child_nodes (h1 a)). h2 c = h1 c"
    proof
      fix c assume "c \<in> set (child_nodes (h1 a))"
      with cn obtain t where "t \<in> set ts" "c = root t" by auto
      with root_in_addrs [of t] have "c \<in> set (addrs (Tree a ts))" by auto
      with Tree.prems(1) show "h2 c = h1 c" by blast
    qed
    have "group_ok h2 a" using a ch ok by (rule group_ok_cong)
    moreover have "\<forall>t \<in> set ts. shaped h2 t"
    proof
      fix t assume t: "t \<in> set ts"
      with Tree.prems(1) have "\<forall>a \<in> set (addrs t). h2 a = h1 a" by auto
      with t sub show "shaped h2 t" by (intro Tree.IH) auto
    qed
    ultimately show ?thesis using False a cn by simp
  qed
qed

lemma node_eqI:
  fixes x y :: node
  assumes "is_synth x = is_synth y" "parent x = parent y" "use_count x = use_count y"
    "child_nodes x = child_nodes y" "is_parallel x = is_parallel y"
    "child_synths x = child_synths y" "child_groups x = child_groups y"
  shows "x = y"
  using assms by (intro node.equality) simp_all


lemma remove_and_dispose_if_fields:
  assumes "distinct cs" and "\<forall>c \<in> set cs. parent (h c) = Some g"
  shows "\<exists>h'. remove_and_dispose_if h cs = Inr (h', filter (\<lambda>c. \<not> is_synth (h c)) cs) \<and>
           (\<forall>a. is_synth (h' a) = is_synth (h a) \<and>
                child_nodes (h' a) = child_nodes (h a) \<and>
                is_parallel (h' a) = is_parallel (h a) \<and>
                parent (h' a) = (if a \<in> set cs \<and> is_synth (h a) then None else parent (h a)) \<and>
                use_count (h' a) =
                  (if a \<in> set cs \<and> is_synth (h a) then use_count (h a) - 1 else use_count (h a)) \<and>
                child_synths (h' a) =
                  (if a = g then child_synths (h a) - of_nat (length (filter (\<lambda>c. is_synth (h c)) cs))
                   else child_synths (h a)) \<and>
                child_groups (h' a) = child_groups (h a))"
  using assms
proof (induction cs arbitrary: h)
  case Nil
  then show ?case by simp
next
  case (Cons c cs)
  from Cons.prems have pc: "parent (h c) = Some g" and nin: "c \<notin> set cs" and d: "distinct cs"
    by simp_all
  show ?case
  proof (cases "is_synth (h c)")
    case True
    from pc obtain h1 where h1: "clear_parent h c = Inr h1"
      using clear_parent_returns by blast
    note f = clear_parent_Inr [OF h1 pc]
    have "\<forall>x \<in> set cs. parent (h1 x) = Some g"
      using Cons.prems by (auto simp: f(4))
    with d Cons.IH [of h1] obtain h' where
      r: "remove_and_dispose_if h1 cs = Inr (h', filter (\<lambda>c. \<not> is_synth (h1 c)) cs)" and
      p: "\<And>a. is_synth (h' a) = is_synth (h1 a) \<and>
                child_nodes (h' a) = child_nodes (h1 a) \<and>
                is_parallel (h' a) = is_parallel (h1 a) \<and>
                parent (h' a) = (if a \<in> set cs \<and> is_synth (h1 a) then None else parent (h1 a)) \<and>
                use_count (h' a) =
                  (if a \<in> set cs \<and> is_synth (h1 a) then use_count (h1 a) - 1 else use_count (h1 a)) \<and>
                child_synths (h' a) =
                  (if a = g then child_synths (h1 a) - of_nat (length (filter (\<lambda>c. is_synth (h1 c)) cs))
                   else child_synths (h1 a)) \<and>
                child_groups (h' a) = child_groups (h1 a)"
      by auto
    have "remove_and_dispose_if h (c # cs) = Inr (h', filter (\<lambda>c. \<not> is_synth (h c)) (c # cs))"
      using True h1 r by (simp add: f(1))
    moreover have "\<And>a. is_synth (h' a) = is_synth (h a) \<and>
                child_nodes (h' a) = child_nodes (h a) \<and>
                is_parallel (h' a) = is_parallel (h a) \<and>
                parent (h' a) = (if a \<in> set (c # cs) \<and> is_synth (h a) then None else parent (h a)) \<and>
                use_count (h' a) =
                  (if a \<in> set (c # cs) \<and> is_synth (h a) then use_count (h a) - 1 else use_count (h a)) \<and>
                child_synths (h' a) =
                  (if a = g then child_synths (h a) - of_nat (length (filter (\<lambda>c. is_synth (h c)) (c # cs)))
                   else child_synths (h a)) \<and>
                child_groups (h' a) = child_groups (h a)"
      using True nin by (auto simp add: p f)
    ultimately show ?thesis by blast
  next
    case False
    from Cons.prems d Cons.IH [of h] obtain h' where
      r: "remove_and_dispose_if h cs = Inr (h', filter (\<lambda>c. \<not> is_synth (h c)) cs)" and
      p: "\<And>a. is_synth (h' a) = is_synth (h a) \<and>
                child_nodes (h' a) = child_nodes (h a) \<and>
                is_parallel (h' a) = is_parallel (h a) \<and>
                parent (h' a) = (if a \<in> set cs \<and> is_synth (h a) then None else parent (h a)) \<and>
                use_count (h' a) =
                  (if a \<in> set cs \<and> is_synth (h a) then use_count (h a) - 1 else use_count (h a)) \<and>
                child_synths (h' a) =
                  (if a = g then child_synths (h a) - of_nat (length (filter (\<lambda>c. is_synth (h c)) cs))
                   else child_synths (h a)) \<and>
                child_groups (h' a) = child_groups (h a)"
      by auto
    have "remove_and_dispose_if h (c # cs) = Inr (h', filter (\<lambda>c. \<not> is_synth (h c)) (c # cs))"
      using False r by simp
    moreover have "\<And>a. is_synth (h' a) = is_synth (h a) \<and>
                child_nodes (h' a) = child_nodes (h a) \<and>
                is_parallel (h' a) = is_parallel (h a) \<and>
                parent (h' a) = (if a \<in> set (c # cs) \<and> is_synth (h a) then None else parent (h a)) \<and>
                use_count (h' a) =
                  (if a \<in> set (c # cs) \<and> is_synth (h a) then use_count (h a) - 1 else use_count (h a)) \<and>
                child_synths (h' a) =
                  (if a = g then child_synths (h a) - of_nat (length (filter (\<lambda>c. is_synth (h c)) (c # cs)))
                   else child_synths (h a)) \<and>
                child_groups (h' a) = child_groups (h a)"
      using False by (auto simp add: p)
    ultimately show ?thesis by blast
  qed
qed

text \<open>The first half of a call: the synths among the children are gone.\<close>

lemma remove_synths_step:
  assumes ok: "group_ok h g" and g: "\<not> is_synth (h g)" and nin: "g \<notin> set (child_nodes (h g))"
  shows "\<exists>h1. remove_and_dispose_if h (child_nodes (h g)) =
                 Inr (h1, filter (\<lambda>c. \<not> is_synth (h c)) (child_nodes (h g))) \<and>
              pruned_on (g # filter (\<lambda>c. is_synth (h c)) (child_nodes (h g))) h
                (h1(g := (h1 g)\<lparr>child_nodes := filter (\<lambda>c. \<not> is_synth (h c)) (child_nodes (h g))\<rparr>))"
proof -
  let ?cs = "child_nodes (h g)"
  let ?kept = "filter (\<lambda>c. \<not> is_synth (h c)) ?cs"
  from ok have "distinct ?cs" "\<forall>c \<in> set ?cs. parent (h c) = Some g"
    by (simp_all add: group_ok_def)
  from remove_and_dispose_if_fields [OF this] obtain h1 where
    r: "remove_and_dispose_if h ?cs = Inr (h1, ?kept)" and
    p: "\<And>a. is_synth (h1 a) = is_synth (h a) \<and>
                child_nodes (h1 a) = child_nodes (h a) \<and>
                is_parallel (h1 a) = is_parallel (h a) \<and>
                parent (h1 a) = (if a \<in> set ?cs \<and> is_synth (h a) then None else parent (h a)) \<and>
                use_count (h1 a) =
                  (if a \<in> set ?cs \<and> is_synth (h a) then use_count (h a) - 1 else use_count (h a)) \<and>
                child_synths (h1 a) =
                  (if a = g then child_synths (h a) - of_nat (length (filter (\<lambda>c. is_synth (h c)) ?cs))
                   else child_synths (h a)) \<and>
                child_groups (h1 a) = child_groups (h a)"
    by auto
  let ?h2 = "h1(g := (h1 g)\<lparr>child_nodes := ?kept\<rparr>)"
  have off: "\<forall>a. a \<notin> set (g # filter (\<lambda>c. is_synth (h c)) ?cs) \<longrightarrow> ?h2 a = h a"
  proof (intro allI impI)
    fix a assume a: "a \<notin> set (g # filter (\<lambda>c. is_synth (h c)) ?cs)"
    then have "h1 a = h a" by (intro node_eqI) (auto simp: p)
    with a show "?h2 a = h a" by simp
  qed
  have atg: "pruned_at h ?h2 g"
    using ok g nin by (simp add: pruned_at_def p group_ok_def)
  have ats: "\<forall>a \<in> set (filter (\<lambda>c. is_synth (h c)) ?cs). pruned_at h ?h2 a"
    using g by (auto simp: pruned_at_def p)
  from off atg ats have "pruned_on (g # filter (\<lambda>c. is_synth (h c)) ?cs) h ?h2"
    by (simp add: pruned_on_def)
  with r show ?thesis by blast
qed

lemma split_children:
  assumes "distinct (concat (map addrs ts))"
    and "\<forall>t \<in> set ts. P (root t) \<longrightarrow> subtrees t = []"
  shows "set (map root (filter (\<lambda>t. P (root t)) ts)) \<inter>
           set (concat (map addrs (filter (\<lambda>t. \<not> P (root t)) ts))) = {} \<and>
         set (map root (filter (\<lambda>t. P (root t)) ts)) \<union>
           set (concat (map addrs (filter (\<lambda>t. \<not> P (root t)) ts))) =
           set (concat (map addrs ts))"
  using assms
proof (induction ts)
  case Nil
  then show ?case by simp
next
  case (Cons t ts)
  then have IH: "set (map root (filter (\<lambda>t. P (root t)) ts)) \<inter>
           set (concat (map addrs (filter (\<lambda>t. \<not> P (root t)) ts))) = {}"
       "set (map root (filter (\<lambda>t. P (root t)) ts)) \<union>
           set (concat (map addrs (filter (\<lambda>t. \<not> P (root t)) ts))) =
           set (concat (map addrs ts))"
    by simp_all
  from Cons.prems(1) have dj: "set (addrs t) \<inter> set (concat (map addrs ts)) = {}" by simp
  show ?case
  proof (cases "P (root t)")
    case True
    with Cons.prems(2) have "addrs t = [root t]" by (cases t) simp
    with True IH dj show ?thesis by auto
  next
    case False
    from IH(2) have "set (map root (filter (\<lambda>t. P (root t)) ts)) \<subseteq> set (concat (map addrs ts))"
      by blast
    with dj have "set (map root (filter (\<lambda>t. P (root t)) ts)) \<inter> set (addrs t) = {}"
      by blast
    with False IH show ?thesis by (simp add: Int_Un_distrib Un_left_commute)
  qed
qed

lemma distinct_concat_filter:
  "distinct (concat (map addrs ts)) \<Longrightarrow> distinct (concat (map addrs (filter Q ts)))"
  by (induction ts) auto


lemma distinct_concat_member:
  "distinct (concat (map addrs ts)) \<Longrightarrow> t \<in> set ts \<Longrightarrow> distinct (addrs t)"
  by (induction ts) auto

lemma for_each_child_pruned:
  assumes "\<And>t hh. t \<in> set gs \<Longrightarrow> shaped hh t \<Longrightarrow> \<not> is_synth (hh (root t)) \<Longrightarrow>
             \<exists>h'. free_synths_deep k hh (root t) = Some (Inr h') \<and> pruned_on (addrs t) hh h'"
    and "\<forall>t \<in> set gs. shaped hh t \<and> \<not> is_synth (hh (root t))"
    and "distinct (concat (map addrs gs))"
  shows "\<exists>h'. for_each_child (free_synths_deep k) hh (map root gs) = Some (Inr h') \<and>
           pruned_on (concat (map addrs gs)) hh h'"
  using assms
proof (induction gs arbitrary: hh)
  case Nil
  then show ?case by (simp add: pruned_on_Nil)
next
  case (Cons t gs)
  from Cons.prems(1) [of t hh] Cons.prems(2) obtain h1 where
    r1: "free_synths_deep k hh (root t) = Some (Inr h1)" and p1: "pruned_on (addrs t) hh h1"
    by auto
  from Cons.prems(3) have dj: "set (addrs t) \<inter> set (concat (map addrs gs)) = {}"
    and d: "distinct (concat (map addrs gs))" by simp_all
  have "\<forall>u \<in> set gs. shaped h1 u \<and> \<not> is_synth (h1 (root u))"
  proof
    fix u assume u: "u \<in> set gs"
    then have "set (addrs u) \<subseteq> set (concat (map addrs gs))" by auto
    with dj have "\<forall>a \<in> set (addrs u). a \<notin> set (addrs t)" by blast
    with p1 have "\<forall>a \<in> set (addrs u). h1 a = hh a" by (simp add: pruned_on_def)
    moreover from u Cons.prems(2) have "shaped hh u" "\<not> is_synth (hh (root u))" by simp_all
    ultimately show "shaped h1 u \<and> \<not> is_synth (h1 (root u))"
      using pruned_on_is_synth [OF p1] by (auto intro: shaped_cong)
  qed
  with d Cons.IH [of h1] Cons.prems(1) obtain h' where
    r2: "for_each_child (free_synths_deep k) h1 (map root gs) = Some (Inr h')" and
    p2: "pruned_on (concat (map addrs gs)) h1 h'"
    by auto
  from p1 p2 dj have "pruned_on (addrs t @ concat (map addrs gs)) hh h'"
    by (rule pruned_on_append)
  with r1 r2 show ?case by simp
qed

lemma free_synths_deep_pruned:
  "shaped h t \<Longrightarrow> distinct (addrs t) \<Longrightarrow> \<not> is_synth (h (root t)) \<Longrightarrow> height t \<le> k \<Longrightarrow>
   \<exists>h'. free_synths_deep k h (root t) = Some (Inr h') \<and> pruned_on (addrs t) h h'"
proof (induction t arbitrary: h k)
  case (Tree a ts)
  let ?syn = "\<lambda>c. is_synth (h c)"
  let ?S = "map root (filter (\<lambda>t. ?syn (root t)) ts)"
  let ?gs = "filter (\<lambda>t. \<not> ?syn (root t)) ts"
  from Tree.prems(3) have g: "\<not> is_synth (h a)" by simp
  with Tree.prems(1) have cn: "child_nodes (h a) = map root ts" and ok: "group_ok h a"
    and sub: "\<forall>t \<in> set ts. shaped h t" by simp_all
  from Tree.prems(2) have an: "a \<notin> set (concat (map addrs ts))"
    and d: "distinct (concat (map addrs ts))" by simp_all
  from Tree.prems(4) obtain k' where k: "k = Suc k'" and "foldr max (map height ts) 0 \<le> k'"
    by (cases k) auto
  then have hts: "\<And>t. t \<in> set ts \<Longrightarrow> height t \<le> k'"
    using height_le_foldr_max by fastforce
  have roots: "set (map root ts) \<subseteq> set (concat (map addrs ts))"
    using root_in_addrs by auto
  with an cn have nin: "a \<notin> set (child_nodes (h a))" by auto
  have kept: "filter (\<lambda>c. \<not> ?syn c) (child_nodes (h a)) = map root ?gs"
    and gone: "filter ?syn (child_nodes (h a)) = ?S"
    by (simp_all add: cn filter_map comp_def)
  from remove_synths_step [OF ok g nin] obtain h1 where
    r1: "remove_and_dispose_if h (child_nodes (h a)) = Inr (h1, map root ?gs)" and
    p1: "pruned_on (a # ?S) h (h1(a := (h1 a)\<lparr>child_nodes := map root ?gs\<rparr>))"
    unfolding kept gone by blast
  let ?h2 = "h1(a := (h1 a)\<lparr>child_nodes := map root ?gs\<rparr>)"
  have leaves: "\<forall>t \<in> set ts. ?syn (root t) \<longrightarrow> subtrees t = []"
  proof (intro ballI impI)
    fix t assume "t \<in> set ts" "?syn (root t)"
    with sub show "subtrees t = []" by (cases t) auto
  qed
  from split_children [OF d leaves] have
    dj: "set ?S \<inter> set (concat (map addrs ?gs)) = {}" and
    un: "set ?S \<union> set (concat (map addrs ?gs)) = set (concat (map addrs ts))"
    by simp_all
  from un an have an': "a \<notin> set (concat (map addrs ?gs))" by blast
  have sh2: "\<forall>t \<in> set ?gs. shaped ?h2 t \<and> \<not> is_synth (?h2 (root t))"
  proof
    fix t assume t: "t \<in> set ?gs"
    then have "set (addrs t) \<subseteq> set (concat (map addrs ?gs))" by auto
    with dj an' have "\<forall>x \<in> set (addrs t). x \<notin> set (a # ?S)" by auto
    with p1 have "\<forall>x \<in> set (addrs t). ?h2 x = h x" by (simp add: pruned_on_def)
    moreover from t sub have "shaped h t" "\<not> is_synth (h (root t))" by simp_all
    ultimately show "shaped ?h2 t \<and> \<not> is_synth (?h2 (root t))"
      using pruned_on_is_synth [OF p1] by (auto intro: shaped_cong)
  qed
  have dgs: "distinct (concat (map addrs ?gs))"
    using d by (rule distinct_concat_filter)
  have step: "\<And>t hh. t \<in> set ?gs \<Longrightarrow> shaped hh t \<Longrightarrow> \<not> is_synth (hh (root t)) \<Longrightarrow>
             \<exists>h'. free_synths_deep k' hh (root t) = Some (Inr h') \<and> pruned_on (addrs t) hh h'"
  proof -
    fix t hh assume t: "t \<in> set ?gs" and s: "shaped hh t" "\<not> is_synth (hh (root t))"
    from t have tt: "t \<in> set ts" by simp
    with d have "distinct (addrs t)" by (rule distinct_concat_member)
    with tt s hts show "\<exists>h'. free_synths_deep k' hh (root t) = Some (Inr h') \<and>
        pruned_on (addrs t) hh h'"
      by (intro Tree.IH) auto
  qed
  from for_each_child_pruned [of ?gs k' ?h2, OF step sh2 dgs] obtain h3 where
    r3: "for_each_child (free_synths_deep k') ?h2 (map root ?gs) = Some (Inr h3)" and
    p3: "pruned_on (concat (map addrs ?gs)) ?h2 h3"
    by blast
  from dj an' have "set (a # ?S) \<inter> set (concat (map addrs ?gs)) = {}" by auto
  with p1 p3 have "pruned_on ((a # ?S) @ concat (map addrs ?gs)) h h3"
    by (rule pruned_on_append)
  moreover have "set ((a # ?S) @ concat (map addrs ?gs)) = set (addrs (Tree a ts))"
    using un by auto
  ultimately have p: "pruned_on (addrs (Tree a ts)) h h3"
    by (rule pruned_on_set [rotated])
  then have "pruned_at h h3 a" by (simp add: pruned_on_def)
  with g have z: "child_synths (h3 a) = 0" by (simp add: pruned_at_def)
  have "free_synths_deep k h a = Some (Inr h3)"
    using r1 r3 z by (simp add: k Let_def)
  with p show ?case by simp
qed

text \<open>
  C7: let the store below a group hold a well-formed tree \<open>t\<close>, and let the fuel cover
  its height. Then \<open>free_synths_deep\<close> returns, its assertions holding. Every synth of
  the subtree is detached and released, and no child list of the subtree holds a synth
  any more. Every group of the subtree, the receiver included, has \<open>child_synths\<close> zero,
  keeps its \<open>child_groups\<close>, its parent and its reference count, and keeps its child
  groups in their order. No object outside the subtree is touched.
\<close>

theorem free_synths_deep_post:
  assumes "shaped h t" and "distinct (addrs t)" and "\<not> is_synth (h (root t))"
    and "height t \<le> k"
  shows "\<exists>h'. free_synths_deep k h (root t) = Some (Inr h') \<and>
           (\<forall>a \<in> set (addrs t).
              if is_synth (h a)
              then is_synth (h' a) \<and> parent (h' a) = None \<and>
                   use_count (h' a) = use_count (h a) - 1
              else \<not> is_synth (h' a) \<and> child_synths (h' a) = 0 \<and>
                   child_groups (h' a) = child_groups (h a) \<and>
                   child_nodes (h' a) = filter (\<lambda>c. \<not> is_synth (h c)) (child_nodes (h a)) \<and>
                   (\<forall>c \<in> set (child_nodes (h' a)). \<not> is_synth (h' c)) \<and>
                   parent (h' a) = parent (h a) \<and> use_count (h' a) = use_count (h a)) \<and>
           (\<forall>a. a \<notin> set (addrs t) \<longrightarrow> h' a = h a)"
proof -
  from free_synths_deep_pruned [OF assms] obtain h' where
    r: "free_synths_deep k h (root t) = Some (Inr h')" and p: "pruned_on (addrs t) h h'"
    by blast
  have syn: "\<And>c. is_synth (h' c) = is_synth (h c)"
    using p by (rule pruned_on_is_synth)
  from p have "\<forall>a \<in> set (addrs t). pruned_at h h' a" "\<forall>a. a \<notin> set (addrs t) \<longrightarrow> h' a = h a"
    by (simp_all add: pruned_on_def)
  with r show ?thesis
    by (auto simp: pruned_at_def syn)
qed

theorem free_synths_deep_post_witness:
  "shaped nested_store nested_tree \<and> distinct (addrs nested_tree) \<and>
   \<not> is_synth (nested_store (root nested_tree)) \<and> height nested_tree \<le> 3 \<and>
   (\<exists>h'. free_synths_deep 3 nested_store 0 = Some (Inr h') \<and>
      child_synths (h' 0) = 0 \<and> child_synths (h' 2) = 0 \<and> child_synths (h' 4) = 0 \<and>
      child_groups (h' 0) = 1 \<and> child_groups (h' 2) = 1 \<and>
      child_nodes (h' 0) = [2] \<and> child_nodes (h' 2) = [4] \<and>
      parent (h' 1) = None \<and> use_count (h' 1) = 0 \<and>
      parent (h' 3) = None \<and> use_count (h' 3) = 0 \<and>
      parent (h' 2) = Some 0)"
proof -
  have a: "shaped nested_store nested_tree"
    by (simp add: nested_tree_def nested_store_def group_ok_def store_defs)
  have b: "distinct (addrs nested_tree)" "\<not> is_synth (nested_store (root nested_tree))"
    "height nested_tree \<le> 3"
    by (simp_all add: nested_tree_def nested_store_def store_defs)
  have v: "root nested_tree = 0" "addrs nested_tree = [0, 1, 2, 3, 4]"
    by (simp_all add: nested_tree_def)
  have s: "\<not> is_synth (nested_store 0)" "is_synth (nested_store 1)"
    "\<not> is_synth (nested_store 2)" "is_synth (nested_store 3)" "\<not> is_synth (nested_store 4)"
    "child_nodes (nested_store 0) = [1, 2]" "child_nodes (nested_store 2) = [3, 4]"
    "child_groups (nested_store 0) = 1" "child_groups (nested_store 2) = 1"
    "use_count (nested_store 1) = 1" "use_count (nested_store 3) = 1"
    "parent (nested_store 2) = Some 0"
    by (simp_all add: nested_store_def store_defs)
  from free_synths_deep_post [OF a b] s
  have "\<exists>h'. free_synths_deep 3 nested_store 0 = Some (Inr h') \<and>
      child_synths (h' 0) = 0 \<and> child_synths (h' 2) = 0 \<and> child_synths (h' 4) = 0 \<and>
      child_groups (h' 0) = 1 \<and> child_groups (h' 2) = 1 \<and>
      child_nodes (h' 0) = [2] \<and> child_nodes (h' 2) = [4] \<and>
      parent (h' 1) = None \<and> use_count (h' 1) = 0 \<and>
      parent (h' 3) = None \<and> use_count (h' 3) = 0 \<and>
      parent (h' 2) = Some 0"
    unfolding v by auto
  with a b show ?thesis by simp
qed

end
